theory Spec2Isabelle
  imports Main
begin

unbundle bit_operations_syntax

section \<open>EasySXB serial terminal: a shallow embedding of Terminal.cxx\<close>

text \<open>
  The development follows \<^verbatim>\<open>src/Terminal.cxx\<close>. C \<^verbatim>\<open>int\<close> variables are HOL
  integers: every value the upload loops compute from a file stays far inside the range
  of a 32-bit \<^verbatim>\<open>int\<close> (at most six hexadecimal digits are scanned at a time, with an
  optional sign). Where a value is printed with \<^verbatim>\<open>%X\<close> the conversion to \<^verbatim>\<open>unsigned\<close> is
  written out, and so is the wrap-around of the one addition on a caller's value
  (\<open>int32\<close>, in \<^verbatim>\<open>dump\<close>). Files are \<open>string\<close>s (lists of bytes). A buffer read as a C
  string ends before its first NUL (\<open>cstr\<close>).
\<close>

subsection \<open>Formatting: \<^verbatim>\<open>sprintf\<close> with \<^verbatim>\<open>%0wX\<close>\<close>

text \<open>
  \<open>int32\<close> is the value of an \<^verbatim>\<open>int\<close> expression whose mathematical result is \<open>i\<close>: it
  wraps around modulo \<open>2 ^ 32\<close>, as the compilers of the PC platforms make the addition.
\<close>

definition int32 :: "int \<Rightarrow> int" where
  "int32 i = (i + 2 ^ 31) mod 2 ^ 32 - 2 ^ 31"

definition cstr :: "string \<Rightarrow> string" where
  "cstr s = takeWhile (\<lambda>c. c \<noteq> CHR 0x00) s"

definition NL :: char where
  "NL = CHR 0x0A"

definition CR :: char where
  "CR = CHR 0x0D"

definition hexdigit :: "nat \<Rightarrow> char" where
  "hexdigit d = (if d < 10 then char_of (48 + d) else char_of (55 + d))"

fun hex :: "nat \<Rightarrow> string" where
  "hex n = (if n < 16 then [hexdigit n] else hex (n div 16) @ [hexdigit (n mod 16)])"

declare hex.simps [simp del]

text \<open>
  \<^verbatim>\<open>%0wX\<close> applied to an \<^verbatim>\<open>int\<close>: the argument is read as a 32-bit unsigned value and
  printed in upper-case hexadecimal, padded with zeros on the left to at least \<open>w\<close>
  characters; a longer number is printed in full.
\<close>

definition fmtX :: "nat \<Rightarrow> int \<Rightarrow> string" where
  "fmtX w i = (let ds = hex (nat (i mod 2 ^ 32)) in replicate (w - length ds) CHR ''0'' @ ds)"

text \<open>
  \<^verbatim>\<open>sprintf(s + index, ...)\<close> on the C string \<open>s\<close>: the new text replaces everything from
  position \<open>index\<close> on. (If \<open>index\<close> lay beyond the end of the string, the string would
  still end at its old terminator.)
\<close>

definition sprintf_at :: "nat \<Rightarrow> string \<Rightarrow> string \<Rightarrow> string" where
  "sprintf_at index txt s = (if index \<le> length s then take index s @ txt else s)"

subsection \<open>Scanning: \<^verbatim>\<open>fgetc\<close> and \<^verbatim>\<open>fscanf\<close> with \<^verbatim>\<open>%0wX\<close>\<close>

definition EOF :: int where
  "EOF = - 1"

definition isspace :: "char \<Rightarrow> bool" where
  "isspace c = (c = CHR '' '' \<or> (9 \<le> (of_char c :: nat) \<and> (of_char c :: nat) \<le> 13))"

definition isxdigit :: "char \<Rightarrow> bool" where
  "isxdigit c = (let k = (of_char c :: nat) in
     (48 \<le> k \<and> k \<le> 57) \<or> (65 \<le> k \<and> k \<le> 70) \<or> (97 \<le> k \<and> k \<le> 102))"

definition xdigit_val :: "char \<Rightarrow> int" where
  "xdigit_val c = (let k = (of_char c :: int) in
     if k \<le> 57 then k - 48 else if k \<le> 70 then k - 55 else k - 87)"

fun xval :: "int \<Rightarrow> string \<Rightarrow> int" where
  "xval acc [] = acc"
| "xval acc (c # cs) = xval (16 * acc + xdigit_val c) cs"

text \<open>
  \<^verbatim>\<open>ret = fscanf(fp, "%0wX", &var)\<close>, as the C library of the PC platforms reads the
  conversion. The result is \<open>(ret, var', fp')\<close>. White space (blanks, tabs, line ends) is
  skipped first; at the end of the input the call returns \<open>EOF\<close>. Then, within the field
  width \<open>w\<close>: an optional sign; an optional prefix \<^verbatim>\<open>0x\<close> or \<^verbatim>\<open>0X\<close>; hexadecimal digits.
  With no digit and no prefix the call returns 0 and leaves the variable as it was (a
  sign that was read stays read). Otherwise it stores the value of the digits, negated
  after a minus sign, and returns 1; after a prefix with no digit behind it the value
  is 0.
\<close>

definition fscanfX :: "nat \<Rightarrow> string \<Rightarrow> int \<Rightarrow> int \<times> int \<times> string" where
  "fscanfX w fp var =
     (let inp = dropWhile isspace fp in
      if inp = [] then (EOF, var, [])
      else
        let neg = (hd inp = CHR ''-'');
            signed = (hd inp = CHR ''-'' \<or> hd inp = CHR ''+'');
            w1 = (if signed then w - 1 else w);
            s1 = (if signed then tl inp else inp);
            pre = (w1 \<noteq> 0 \<and> take 1 s1 = ''0'' \<and> w1 - 1 \<noteq> 0
                   \<and> (take 1 (tl s1) = ''x'' \<or> take 1 (tl s1) = ''X''));
            w2 = (if pre then w1 - 2 else w1);
            s2 = (if pre then tl (tl s1) else s1);
            ds = takeWhile isxdigit (take w2 s2)
        in if ds = [] \<and> \<not> pre then (0, var, s2)
           else (1, (if neg then - xval 0 ds else xval 0 ds), drop (length ds) s2))"

text \<open>
  The loop that skips to the next line: at most \<open>n\<close> calls of \<^verbatim>\<open>fgetc\<close>, stopping after
  a line feed. At the end of the file \<^verbatim>\<open>fgetc\<close> returns \<open>EOF\<close> and consumes nothing.
\<close>

fun skip_line :: "nat \<Rightarrow> string \<Rightarrow> string" where
  "skip_line 0 fp = fp"
| "skip_line (Suc n) [] = []"
| "skip_line (Suc n) (c # cs) = (if c = NL then cs else skip_line n cs)"

subsection \<open>The terminal: process-wide state and observable effects\<close>

text \<open>
  Everything the functions do to the outside world is recorded, in order, in a trace:
  the buffers written to the serial port, and the calls into the user interface.
\<close>

datatype event =
    Write string
  | Append string
  | Message string string
  | SetToggles int
  | UpdateRegs string
  | SetAddress int

text \<open>
  \<open>connected\<close>, \<open>flash\<close> and \<open>buf\<close> are the globals of the file. \<open>cancelled\<close> is the
  flag behind \<^verbatim>\<open>Gui::getCancelled\<close> / \<^verbatim>\<open>Gui::setCancelled\<close>. Two fields are the
  environment: \<open>esc\<close> says, for each coming call of \<^verbatim>\<open>Fl::check()\<close>, whether the escape
  key handler runs in it and sets the flag; \<open>rx\<close> holds what the coming \<^verbatim>\<open>read\<close> calls on
  the port return (an empty element: nothing available). \<open>overrun\<close> records that a
  write went beyond the 256 bytes of a local line buffer \<^verbatim>\<open>char s[256]\<close>. From there
  on the behaviour of the C program is undefined, and what the model computes says
  nothing about it: a property of the program is a property of the runs that end with
  \<open>overrun\<close> false.
\<close>

record terminal =
  connected :: bool
  flash :: int
  buf :: string
  cancelled :: bool
  esc :: "bool list"
  rx :: "string list"
  overrun :: bool
  trace :: "event list"

datatype mode = MODE_265 | MODE_134

datatype reg = REG_PC | REG_A | REG_X | REG_Y | REG_SP | REG_DP | REG_SR | REG_DB

definition emit :: "event \<Rightarrow> terminal \<Rightarrow> terminal" where
  "emit e t = t\<lparr>trace := trace t @ [e]\<rparr>"

definition Gui_append :: "string \<Rightarrow> terminal \<Rightarrow> terminal" where
  "Gui_append txt = emit (Append txt)"

definition Dialog_message :: "string \<Rightarrow> string \<Rightarrow> terminal \<Rightarrow> terminal" where
  "Dialog_message title txt = emit (Message title txt)"

definition fileError :: "terminal \<Rightarrow> terminal" where
  "fileError = Dialog_message ''Error'' (''Error reading file.'' @ [NL])"

definition Fl_check :: "terminal \<Rightarrow> terminal" where
  "Fl_check t = (case esc t of [] \<Rightarrow> t
                 | k # ks \<Rightarrow> t\<lparr>esc := ks, cancelled := (cancelled t \<or> k)\<rparr>)"

subsection \<open>Link layer\<close>

text \<open>
  \<^verbatim>\<open>connect\<close>, POSIX branch: \<open>open_ok\<close> and \<open>tcsetattr_ok\<close> are the outcomes of the two
  system calls; the flow-control flag only selects the port settings.
\<close>

definition connect :: "bool \<Rightarrow> bool \<Rightarrow> bool \<Rightarrow> terminal \<Rightarrow> terminal" where
  "connect hardware_flow open_ok tcsetattr_ok t =
     (if \<not> open_ok then Dialog_message ''Error'' ''Could not open serial port.'' t
      else if \<not> tcsetattr_ok then Dialog_message ''Error'' ''tcsetattr() failed.'' t
      else
        Gui_append [NL]
          (Gui_append ([NL] @ ''>> Connected to SXB at 9600 baud.'' @ [NL, NL])
            (t\<lparr>flash := 0, connected := True\<rparr>)))"

definition disconnect :: "terminal \<Rightarrow> terminal" where
  "disconnect t =
     (if connected t then
        Dialog_message ''Disconnected'' ''Connection Closed.''
          (Gui_append ([NL] @ ''>> Connection Closed.'' @ [NL]) (t\<lparr>connected := False\<rparr>))
      else t)"

definition isConnected :: "terminal \<Rightarrow> bool" where
  "isConnected t = connected t"

definition nl_to_cr :: "char \<Rightarrow> char" where
  "nl_to_cr c = (if c = NL then CR else c)"

definition cr_to_nl :: "char \<Rightarrow> char" where
  "cr_to_nl c = (if c = CR then NL else c)"

definition sendChar :: "char \<Rightarrow> terminal \<Rightarrow> terminal" where
  "sendChar c t = (if connected t then emit (Write [nl_to_cr c]) t else t)"

text \<open>
  \<^verbatim>\<open>sendString\<close> copies the text into \<open>buf\<close>, turns every line feed into a carriage
  return and writes the buffer. Its callers pass texts far shorter than the 4096 bytes
  of \<open>buf\<close>.
\<close>

definition sendString :: "string \<Rightarrow> terminal \<Rightarrow> terminal" where
  "sendString s t =
     (if connected t then
        (let b = map nl_to_cr s in emit (Write b) (t\<lparr>buf := b\<rparr>))
      else t)"

text \<open>
  The read loop of \<^verbatim>\<open>getData\<close>: each \<^verbatim>\<open>read\<close> delivers at most 256 bytes; the loop ends
  when nothing is delivered or more than 2048 bytes have been collected.
\<close>

fun read_loop :: "string list \<Rightarrow> string \<Rightarrow> string \<times> string list" where
  "read_loop [] b = (b, [])"
| "read_loop (chunk # chunks) b =
     (if chunk = [] then (b, chunks)
      else
        let b' = b @ take 256 chunk in
        if length b' > 2048 then (b', chunks) else read_loop chunks b')"

definition getData :: "terminal \<Rightarrow> terminal" where
  "getData t =
     (let t = t\<lparr>buf := []\<rparr> in
      if connected t then
        (case read_loop (rx t) [] of (b, rest) \<Rightarrow> t\<lparr>buf := map cr_to_nl b, rx := rest\<rparr>)
      else t)"

definition result_char :: "char \<Rightarrow> bool" where
  "result_char c =
     (let k = (of_char c :: nat) in (48 \<le> k \<and> k \<le> 57) \<or> (65 \<le> k \<and> k \<le> 90) \<or> c = CHR '' '')"

definition getResult :: "string \<Rightarrow> terminal \<Rightarrow> string \<times> terminal" where
  "getResult s t =
     (if connected t then (let t = getData t in (filter result_char (cstr (buf t)), t))
      else (s, t))"

subsection \<open>Framing layer\<close>

definition changeReg :: "mode \<Rightarrow> reg \<Rightarrow> int \<Rightarrow> terminal \<Rightarrow> terminal" where
  "changeReg m r n t =
     (if \<not> connected t then t
      else
        let num = (if n < 0 then 0 else n) in
        case m of
          MODE_265 \<Rightarrow>
            (let t = (case r of
                  REG_PC \<Rightarrow> sendString (''|P'' @ fmtX 2 (drop_bit 16 num) @ '':'' @ fmtX 4 (num AND 0xFFFF)) t
                | REG_A \<Rightarrow> sendString (''|A'' @ fmtX 4 num) t
                | REG_X \<Rightarrow> sendString (''|X'' @ fmtX 4 num) t
                | REG_Y \<Rightarrow> sendString (''|Y'' @ fmtX 4 num) t
                | REG_SP \<Rightarrow> sendString (''|S'' @ fmtX 4 num) t
                | REG_DP \<Rightarrow> sendString (''|D'' @ fmtX 4 num) t
                | REG_SR \<Rightarrow> sendString (''|F'' @ fmtX 2 num) t
                | REG_DB \<Rightarrow> sendString (''|B'' @ fmtX 2 num) t);
                 t = sendString ''R'' t
             in if r = REG_SR then emit (SetToggles num) t else t)
        | MODE_134 \<Rightarrow>
            (let t = (case r of
                  REG_PC \<Rightarrow> sendString (''A'' @ fmtX 4 (num AND 0xFFFF) @ ''     '') t
                | REG_SR \<Rightarrow> sendString (''A '' @ fmtX 2 (num AND 0xFF) @ ''    '') t
                | REG_A \<Rightarrow> sendString (''A  '' @ fmtX 2 num @ ''   '') t
                | REG_X \<Rightarrow> sendString (''A   '' @ fmtX 2 num @ ''  '') t
                | REG_Y \<Rightarrow> sendString (''A    '' @ fmtX 2 num @ '' '') t
                | REG_SP \<Rightarrow> sendString (''A     '' @ fmtX 2 num) t
                | _ \<Rightarrow> t);
                 t = sendString ''R'' t
             in if r = REG_SR then emit (SetToggles num) t else t))"

text \<open>
  \<^verbatim>\<open>updateRegs\<close> collects the reply in a local \<^verbatim>\<open>char s[256]\<close>: a reply of more than 255
  characters overruns it.
\<close>

definition updateRegs :: "mode \<Rightarrow> terminal \<Rightarrow> terminal" where
  "updateRegs m t =
     (if \<not> connected t then t
      else
        let t = sendString (case m of MODE_265 \<Rightarrow> ''| '' | MODE_134 \<Rightarrow> ''R'') t in
        case getResult [] t of (s, t) \<Rightarrow>
          emit (UpdateRegs s) (t\<lparr>overrun := (overrun t \<or> 255 < length s)\<rparr>))"

definition jml :: "mode \<Rightarrow> int \<Rightarrow> terminal \<Rightarrow> terminal" where
  "jml m a t =
     (if \<not> connected t then t
      else
        let address = (if a < 0 then 0 else a) in
        case m of
          MODE_265 \<Rightarrow>
            sendString (fmtX 2 (drop_bit 16 address) @ fmtX 4 (address AND 0xFFFF))
              (sendString ''G'' t)
        | MODE_134 \<Rightarrow> sendString (fmtX 4 (address AND 0xFFFF)) (sendString ''G'' t))"

definition jsl :: "mode \<Rightarrow> int \<Rightarrow> terminal \<Rightarrow> terminal" where
  "jsl m a t =
     (if \<not> connected t then t
      else
        let address = (if a < 0 then 0 else a) in
        case m of
          MODE_265 \<Rightarrow>
            sendString (fmtX 2 (drop_bit 16 address) @ fmtX 4 (address AND 0xFFFF))
              (sendString ''J'' t)
        | MODE_134 \<Rightarrow> sendString (fmtX 4 (address AND 0xFFFF)) (sendString ''J'' t))"

text \<open>
  \<^verbatim>\<open>dump\<close> adds \<^verbatim>\<open>0xff\<close> to the address: for an address within 255 of the greatest
  \<^verbatim>\<open>int\<close> the sum wraps around to a negative number.
\<close>

definition dump :: "mode \<Rightarrow> int \<Rightarrow> terminal \<Rightarrow> terminal" where
  "dump m a t =
     (if \<not> connected t then t
      else
        let address = (if a < 0 then 0 else a);
            last_address = int32 (address + 0xff);
            t = Gui_append ([NL] @ ''Memory dump from '' @ fmtX 2 (drop_bit 16 address) @ '':''
                  @ fmtX 4 (address AND 0xFFFF) @ '' - '' @ fmtX 2 (drop_bit 16 last_address)
                  @ '':'' @ fmtX 4 (last_address AND 0xFFFF) @ [NL]) t
        in
        case m of
          MODE_265 \<Rightarrow>
            sendString (fmtX 2 (drop_bit 16 last_address) @ fmtX 4 (last_address AND 0xFFFF) @ [NL])
              (sendString (fmtX 2 (drop_bit 16 address) @ fmtX 4 (address AND 0xFFFF))
                (sendString ''D'' t))
        | MODE_134 \<Rightarrow>
            sendString (fmtX 4 (address AND 0xFFFF) @ fmtX 4 (last_address AND 0xffff))
              (sendString ''D'' t))"

subsection \<open>Upload engine: the state of one upload\<close>

text \<open>
  The local variables of \<^verbatim>\<open>uploadHex\<close> and \<^verbatim>\<open>uploadSrec\<close> (the latter has no
  \<open>segment\<close>), the rest of the file behind the read position \<open>fp\<close>, the line buffer
  \<^verbatim>\<open>char s[256]\<close> as \<open>sbuf\<close>, and the terminal. The variables keep their values from one
  record to the next, as in the C functions, where they are declared outside the loop.
\<close>

record frame =
  fp :: string
  segment :: int
  address :: int
  start_address :: int
  code :: int
  val :: int
  count :: int
  sbuf :: string
  tm :: terminal

datatype 'a outcome = Break 'a | Continue 'a

definition sprintf_s :: "nat \<Rightarrow> string \<Rightarrow> frame \<Rightarrow> frame" where
  "sprintf_s index txt f =
     f\<lparr>sbuf := sprintf_at index txt (sbuf f),
       tm := (tm f)\<lparr>overrun := (overrun (tm f) \<or> 256 < index + length txt + 1)\<rparr>\<rparr>"

definition scan_count :: "frame \<Rightarrow> int \<times> frame" where
  "scan_count f =
     (case fscanfX 2 (fp f) (count f) of (ret, v, rest) \<Rightarrow> (ret, f\<lparr>fp := rest, count := v\<rparr>))"

definition scan_address :: "nat \<Rightarrow> frame \<Rightarrow> int \<times> frame" where
  "scan_address w f =
     (case fscanfX w (fp f) (address f) of (ret, v, rest) \<Rightarrow> (ret, f\<lparr>fp := rest, address := v\<rparr>))"

definition scan_code :: "frame \<Rightarrow> int \<times> frame" where
  "scan_code f =
     (case fscanfX 2 (fp f) (code f) of (ret, v, rest) \<Rightarrow> (ret, f\<lparr>fp := rest, code := v\<rparr>))"

definition scan_value :: "frame \<Rightarrow> int \<times> frame" where
  "scan_value f =
     (case fscanfX 2 (fp f) (val f) of (ret, v, rest) \<Rightarrow> (ret, f\<lparr>fp := rest, val := v\<rparr>))"

definition file_error :: "frame \<Rightarrow> frame" where
  "file_error f = f\<lparr>tm := fileError (tm f)\<rparr>"

text \<open>The terminal update after a load record: \<^verbatim>\<open>getData(); Gui::append(buf);\<close>\<close>

definition update_terminal :: "terminal \<Rightarrow> terminal" where
  "update_terminal t = (let t = getData t in Gui_append (cstr (buf t)) t)"

text \<open>
  The end of an iteration, shared by both uploads: skip to the next line, let the user
  interface handle its events, and stop if the cancel flag is set, clearing it.
\<close>

definition next_record :: "frame \<Rightarrow> frame outcome" where
  "next_record f0 =
     (let f = f0\<lparr>fp := skip_line 256 (fp f0)\<rparr>;
          f = f\<lparr>tm := Fl_check (tm f)\<rparr>
      in if cancelled (tm f) then Break (f\<lparr>tm := (tm f)\<lparr>cancelled := False\<rparr>\<rparr>)
         else Continue f)"

subsection \<open>Upload engine: Intel HEX\<close>

text \<open>
  The data loop of \<^verbatim>\<open>uploadHex\<close>, with the number of iterations still to run, the
  write position \<open>index\<close> and the running checksum. The first component of the result is
  the local flag \<^verbatim>\<open>cancel\<close>.
\<close>

fun hex_data :: "nat \<Rightarrow> nat \<Rightarrow> int \<Rightarrow> frame \<Rightarrow> bool \<times> nat \<times> int \<times> frame" where
  "hex_data 0 index checksum f = (False, index, checksum, f)"
| "hex_data (Suc n) index checksum f0 =
     (case scan_value f0 of (ret, f) \<Rightarrow>
        if ret = - 1 \<or> ret = EOF then (True, index, checksum, f)
        else hex_data n (index + 2) (checksum + val f) (sprintf_s index (fmtX 2 (val f)) f))"

text \<open>
  The head of a load record and the start of its checksum. \<^verbatim>\<open>uploadHex\<close> prints the
  segment as the high address byte, \<^verbatim>\<open>uploadSrec\<close> bits 16 to 23 of the address; the
  three additions to the checksum are the same in both.
\<close>

definition hex_header :: "frame \<Rightarrow> frame" where
  "hex_header f =
     sprintf_s 0 (''S2'' @ fmtX 2 (count f + 4) @ fmtX 2 (segment f)
       @ fmtX 2 (drop_bit 8 (address f) AND 0xFF) @ fmtX 2 (address f AND 0xFF)) f"

definition checksum0 :: "frame \<Rightarrow> int" where
  "checksum0 f = 0 + (count f + 4) + drop_bit 8 (address f) + (address f AND 0xFF)"

text \<open>
  The end of a load record, the same lines in both uploads: print the checksum and a
  line feed, send the buffer, then read and show what the device answers.
\<close>

definition send_record :: "nat \<Rightarrow> int \<Rightarrow> frame \<Rightarrow> frame" where
  "send_record index checksum f0 =
     (let f = sprintf_s index (fmtX 2 (0xFF - (checksum AND 0xFF)) @ [NL]) f0;
          f = f\<lparr>tm := sendString (sbuf f) (tm f)\<rparr>
      in f\<lparr>tm := update_terminal (tm f)\<rparr>)"

definition hex_send :: "frame \<Rightarrow> frame outcome" where
  "hex_send f0 =
     (let f = hex_header f0 in
      case hex_data (nat (count f)) 10 (checksum0 f) f of
        (cancel, index, checksum, f) \<Rightarrow>
          if cancel then Break (file_error f)
          else next_record (send_record index checksum f))"

text \<open>One record, after its colon has been read.\<close>

definition hex_record :: "frame \<Rightarrow> frame outcome" where
  "hex_record f0 =
     (case scan_count (f0\<lparr>segment := 0\<rparr>) of (ret, f) \<Rightarrow>
        if ret = - 1 \<or> ret = EOF then Break (file_error f)
        else if count f = 0 then Break f
        else
          case scan_address 4 f of (ret, f) \<Rightarrow>
            if ret = - 1 \<or> ret = EOF then Break (file_error f)
            else
              let f = (if start_address f = - 1 then f\<lparr>start_address := address f\<rparr> else f) in
              case scan_code f of (ret, f) \<Rightarrow>
                if ret = - 1 \<or> ret = EOF then Break (file_error f)
                else if code f = 0x04 then next_record (f\<lparr>segment := address f\<rparr>)
                else if code f = 0x00 then hex_send f
                else next_record f)"

text \<open>One iteration of the \<^verbatim>\<open>while (1)\<close> loop of \<^verbatim>\<open>uploadHex\<close>.\<close>

definition hex_step :: "frame \<Rightarrow> frame outcome" where
  "hex_step f =
     (case fp f of
        [] \<Rightarrow> Break f
      | c # rest \<Rightarrow>
          if c = CHR '':'' then hex_record (f\<lparr>fp := rest\<rparr>) else Continue (f\<lparr>fp := rest\<rparr>))"

text \<open>The loop ends: every iteration that continues has consumed at least one character.\<close>

function hex_loop :: "frame \<Rightarrow> frame" where
  "hex_loop f = (case hex_step f of Break f' \<Rightarrow> f' | Continue f' \<Rightarrow> hex_loop f')"
  by pat_completeness auto

text \<open>
  \<^verbatim>\<open>uploadHex\<close>. The argument is the outcome of \<^verbatim>\<open>fopen\<close>: \<open>None\<close> if the file
  cannot be opened, else its contents.
\<close>

definition new_frame :: "string \<Rightarrow> terminal \<Rightarrow> frame" where
  "new_frame content t =
     \<lparr>fp = content, segment = 0, address = 0, start_address = - 1, code = 0, val = 0,
      count = 0, sbuf = [], tm = t\<rparr>"

definition uploadHex :: "string option \<Rightarrow> terminal \<Rightarrow> terminal" where
  "uploadHex file t0 =
     (case file of
        None \<Rightarrow> Dialog_message ''Error'' (''Could not open file.'' @ [NL]) t0
      | Some content \<Rightarrow>
          let t = Gui_append ([NL] @ ''>> Uploading Program, ESC to cancel.'' @ [NL]) t0;
              f = hex_loop (new_frame content t);
              f = sprintf_s 0 (''S804000000FB'' @ [NL]) f;
              f = f\<lparr>tm := sendString (sbuf f) (tm f)\<rparr>
          in emit (SetAddress (start_address f)) (tm f))"

subsection \<open>Upload engine: Motorola S-records\<close>

text \<open>
  A byte stored in a \<^verbatim>\<open>char\<close> (signed, as on the PC platforms the program is built
  for) and read back as an \<^verbatim>\<open>int\<close>: \<^verbatim>\<open>prefix[0] = fgetc(fp)\<close> makes a byte \<^verbatim>\<open>0xFF\<close>
  equal to \<open>EOF\<close>.
\<close>

definition schar :: "char \<Rightarrow> int" where
  "schar c = (let k = (of_char c :: int) in if k < 128 then k else k - 256)"

text \<open>
  The data loop of \<^verbatim>\<open>uploadSrec\<close>: a failed read reports the file error and leaves
  this loop.
\<close>

fun srec_data :: "nat \<Rightarrow> nat \<Rightarrow> int \<Rightarrow> frame \<Rightarrow> nat \<times> int \<times> frame" where
  "srec_data 0 index checksum f = (index, checksum, f)"
| "srec_data (Suc n) index checksum f0 =
     (case scan_value f0 of (ret, f) \<Rightarrow>
        if ret = - 1 \<or> ret = EOF then (index, checksum, file_error f)
        else srec_data n (index + 2) (checksum + val f) (sprintf_s index (fmtX 2 (val f)) f))"

definition capture_start :: "frame \<Rightarrow> frame" where
  "capture_start f = (if start_address f = - 1 then f\<lparr>start_address := address f\<rparr> else f)"

definition srec_address :: "frame \<Rightarrow> frame outcome" where
  "srec_address f0 =
     (if code f0 = 1 then
        (case scan_address 4 f0 of (ret, f) \<Rightarrow>
           if ret = - 1 \<or> ret = EOF then Break (file_error f) else Continue (capture_start f))
      else if code f0 = 2 then
        (case scan_address 6 f0 of (ret, f) \<Rightarrow>
           if ret = - 1 \<or> ret = EOF then Break (file_error f) else Continue (capture_start f))
      else Break f0)"

definition srec_header :: "frame \<Rightarrow> frame" where
  "srec_header f =
     sprintf_s 0 (''S2'' @ fmtX 2 (count f + 4) @ fmtX 2 (drop_bit 16 (address f) AND 0xFF)
       @ fmtX 2 (drop_bit 8 (address f) AND 0xFF) @ fmtX 2 (address f AND 0xFF)) f"

definition srec_send :: "frame \<Rightarrow> frame" where
  "srec_send f0 =
     (let f = srec_header f0 in
      case srec_data (nat (count f)) 10 (checksum0 f) f of
        (index, checksum, f) \<Rightarrow> send_record index checksum f)"

text \<open>One iteration of the \<^verbatim>\<open>while (1)\<close> loop of \<^verbatim>\<open>uploadSrec\<close>.\<close>

definition srec_step :: "frame \<Rightarrow> frame outcome" where
  "srec_step f0 =
     (case fp f0 of
        [] \<Rightarrow> Break f0
      | p0 # r0 \<Rightarrow>
          if schar p0 = EOF then Break (f0\<lparr>fp := r0\<rparr>)
          else
            case r0 of
              [] \<Rightarrow> Break (f0\<lparr>fp := r0\<rparr>)
            | p1 # r1 \<Rightarrow>
                if schar p1 = EOF then Break (f0\<lparr>fp := r1\<rparr>)
                else
                  let f = f0\<lparr>fp := r1, code := schar p1 - 48\<rparr> in
                  if code f < 0 \<or> code f > 2 then Break f
                  else
                    case scan_count f of (ret, f) \<Rightarrow>
                      if ret = - 1 \<or> ret = EOF then Break (file_error f)
                      else
                        let f = (if code f = 1 then f\<lparr>count := count f - 3\<rparr>
                                 else if code f = 2 then f\<lparr>count := count f - 4\<rparr>
                                 else f)
                        in
                        if count f = 0 then Break f
                        else if code f > 0 then
                          (case srec_address f of
                             Break f \<Rightarrow> Break f
                           | Continue f \<Rightarrow> next_record (srec_send f))
                        else next_record f)"

function srec_loop :: "frame \<Rightarrow> frame" where
  "srec_loop f = (case srec_step f of Break f' \<Rightarrow> f' | Continue f' \<Rightarrow> srec_loop f')"
  by pat_completeness auto

definition uploadSrec :: "string option \<Rightarrow> terminal \<Rightarrow> terminal" where
  "uploadSrec file t0 =
     (case file of
        None \<Rightarrow> Dialog_message ''Error'' (''Could not open file.'' @ [NL]) t0
      | Some content \<Rightarrow>
          let t = Gui_append ([NL] @ ''>> Uploading Program, ESC to cancel.'' @ [NL]) t0;
              f = srec_loop (new_frame content t);
              f = sprintf_s 0 (''S804000000FB'' @ [NL]) f;
              f = f\<lparr>tm := sendString (sbuf f) (tm f)\<rparr>
          in emit (SetAddress (start_address f)) (tm f))"

subsection \<open>Upload engine: choosing the parser\<close>

definition tolower :: "char \<Rightarrow> char" where
  "tolower c = (let k = (of_char c :: nat) in if 65 \<le> k \<and> k \<le> 90 then char_of (k + 32) else c)"

definition strcasecmp_eq :: "string \<Rightarrow> string \<Rightarrow> bool" where
  "strcasecmp_eq a b = (map tolower a = map tolower b)"

text \<open>
  \<^verbatim>\<open>upload\<close>. The file chooser is the user interface's: its outcome is an argument,
  \<open>None\<close> when the user picks no file, else the extension of the chosen name (what
  \<^verbatim>\<open>fl_filename_ext\<close> returns) and the outcome of opening the file.
\<close>

definition upload :: "(string \<times> string option) option \<Rightarrow> terminal \<Rightarrow> terminal" where
  "upload choice t =
     (if \<not> connected t then Dialog_message ''Error'' ''Not Connected.'' t
      else
        case choice of
          None \<Rightarrow> t
        | Some (ext, file) \<Rightarrow>
            if strcasecmp_eq ext ''.hex'' then uploadHex file t
            else if strcasecmp_eq ext ''.srec'' then uploadSrec file t
            else Dialog_message ''Upload Error''
                   ''Only .hex and .srec file extentions are supported.'' t)"

section \<open>The vocabulary of the properties\<close>

text \<open>
  The properties speak about what an operation writes to the serial port: the buffers of
  the \<open>Write\<close> events of the trace, in order.
\<close>

fun written :: "event \<Rightarrow> string list" where
  "written (Write s) = [s]"
| "written _ = []"

definition writes :: "terminal \<Rightarrow> string list" where
  "writes t = concat (map written (trace t))"

text \<open>A terminal with an open link and one without, for concrete runs.\<close>

definition link_up :: terminal where
  "link_up = \<lparr>connected = True, flash = 0, buf = [], cancelled = False, esc = [], rx = [],
     overrun = False, trace = []\<rparr>"

definition link_down :: terminal where
  "link_down = link_up\<lparr>connected := False\<rparr>"

text \<open>
  The position of a register's field in a Dialect B line, after the letter \<open>A\<close>: the
  order in which the format strings of \<^verbatim>\<open>changeReg\<close> lay the fields out. The number a
  field shows: the low 16 bits for the program counter, the low 8 bits for the status
  register, the number itself for the others, a negative number counting as 0.
\<close>

fun field_134 :: "reg \<Rightarrow> nat" where
  "field_134 REG_PC = 0"
| "field_134 REG_SR = 1"
| "field_134 REG_A = 2"
| "field_134 REG_X = 3"
| "field_134 REG_Y = 4"
| "field_134 REG_SP = 5"
| "field_134 _ = 6"

definition shown_134 :: "reg \<Rightarrow> int \<Rightarrow> int" where
  "shown_134 r n =
     (if r = REG_PC then max 0 n mod 0x10000 else if r = REG_SR then max 0 n mod 0x100
      else max 0 n)"

text \<open>
  The frame an iteration ends with, whether the loop goes on or not.
\<close>

definition frame_of :: "'a outcome \<Rightarrow> 'a" where
  "frame_of r = (case r of Break f \<Rightarrow> f | Continue f \<Rightarrow> f)"

text \<open>
  A load record starts with \<^verbatim>\<open>S2\<close>. \<open>grows t t'\<close>: from \<open>t\<close> to \<open>t'\<close> the connection
  state is kept, an overrun of the line buffer stays recorded, and only load records
  have been written to the port.
\<close>

definition load_text :: "string \<Rightarrow> bool" where
  "load_text s = (take 2 s = ''S2'')"

definition grows :: "terminal \<Rightarrow> terminal \<Rightarrow> bool" where
  "grows t t' = (connected t' = connected t \<and> (overrun t \<longrightarrow> overrun t')
                 \<and> (\<exists>ws. writes t' = writes t @ ws \<and> list_all load_text ws))"

text \<open>
  The terminator record as it goes over the link, its line feed sent as a carriage return.
\<close>

definition terminator :: string where
  "terminator = ''S804000000FB'' @ [CR]"

text \<open>
  A field of a record as object files have it: exactly \<open>w\<close> hexadecimal digits.
\<close>

definition xdigits :: "nat \<Rightarrow> string \<Rightarrow> bool" where
  "xdigits w ds = (length ds = w \<and> list_all isxdigit ds)"

text \<open>
  The load record in the words of the specification, as it goes over the link: length
  byte, high address byte \<open>hi\<close>, the high and the low byte of the 16-bit offset, the
  data, and the checksum \<open>(0xFF - ((len + 4 + addrHi + addrLo + sum of data) & 0xFF)) & 0xFF\<close>,
  where \<open>addrHi\<close> and \<open>addrLo\<close> are the two bytes of the low 16 bits of the address.
\<close>

definition load_record :: "int \<Rightarrow> int \<Rightarrow> int list \<Rightarrow> string" where
  "load_record hi a vs =
     ''S2'' @ fmtX 2 (int (length vs) + 4) @ fmtX 2 hi
       @ fmtX 2 (drop_bit 8 a AND 0xFF) @ fmtX 2 (a AND 0xFF)
       @ concat (map (fmtX 2) vs)
       @ fmtX 2 ((0xFF - ((int (length vs) + 4 + (drop_bit 8 a AND 0xFF) + (a AND 0xFF)
                            + sum_list vs) AND 0xFF)) AND 0xFF)
       @ [CR]"

text \<open>
  The fields of a data record of an Intel HEX file: a count of two digits, an offset of
  four, and as many data bytes as the count says (up to 255).
\<close>

definition hex_data_line :: "string \<Rightarrow> string \<Rightarrow> string list \<Rightarrow> bool" where
  "hex_data_line cnt adr bs =
     (xdigits 2 cnt \<and> xdigits 4 adr \<and> list_all (xdigits 2) bs
      \<and> xval 0 cnt = int (length bs) \<and> bs \<noteq> [])"

text \<open>
  The fields of an S1 (\<open>k = 2\<close>) or S2 (\<open>k = 3\<close>) record: the count covers the \<open>k\<close>
  address bytes, the data bytes and the checksum byte.
\<close>

definition srec_data_line :: "nat \<Rightarrow> string \<Rightarrow> string \<Rightarrow> string list \<Rightarrow> bool" where
  "srec_data_line k cnt adr bs =
     (xdigits 2 cnt \<and> xdigits (2 * k) adr \<and> list_all (xdigits 2) bs
      \<and> xval 0 cnt = int (length bs) + int k + 1 \<and> bs \<noteq> [])"

text \<open>
  A source line as text: the record type (two digits in a HEX file, the digit after the
  \<open>S\<close> in an S-record file), the count field, the address field, the data bytes, and what
  follows up to the line feed (for a data record, the checksum of the source record).
\<close>

record line =
  l_type :: string
  l_count :: string
  l_address :: string
  l_data :: "string list"
  l_tail :: string





text \<open>
  The line as it stands in an S-record file: a header (type 0, with a count that is not
  zero; the loop reads nothing behind the count), or a data record of type 1 (address of
  four digits) or type 2 (six digits).
\<close>

definition srec_line :: "line \<Rightarrow> string" where
  "srec_line r = ''S'' @ l_type r @ l_count r @ l_address r @ concat (l_data r) @ l_tail r @ [NL]"

definition srec_wf :: "line \<Rightarrow> bool" where
  "srec_wf r = (NL \<notin> set (l_tail r) \<and> length (l_tail r) < 256
               \<and> (if l_type r = ''0''
                    then xdigits 2 (l_count r) \<and> xval 0 (l_count r) \<noteq> 0
                         \<and> l_address r = [] \<and> l_data r = []
                  else if l_type r = ''1''
                    then srec_data_line 2 (l_count r) (l_address r) (l_data r)
                  else l_type r = ''2'' \<and> srec_data_line 3 (l_count r) (l_address r) (l_data r)))"



definition header :: "line \<Rightarrow> bool" where
  "header r = (l_type r = ''0'')"




definition header_line :: line where
  "header_line =
     \<lparr>l_type = ''0'', l_count = ''03'', l_address = [], l_data = [], l_tail = ''0000FC''\<rparr>"

text \<open>
  The data of a record of 131 bytes, ten more than the line buffer holds: 131 times \<open>00\<close>.
\<close>

definition long_data :: "string list" where
  "long_data = replicate 131 ''00''"

text \<open>
  An S-record file whose header has 128 data bytes, so that 262 characters follow its
  count field, and whose only data record is of type 2, at \<open>0x018000\<close>.
\<close>

definition long_header_file :: string where
  "long_header_file = ''S083'' @ ''0000'' @ concat (replicate 128 ''00'') @ ''7C'' @ [NL]
                        @ ''S206018000010275'' @ [NL]"

section \<open>Termination of the upload loops\<close>

lemma fscanfX_rest:
  "\<exists>n. snd (snd (fscanfX w i v)) = drop n i"
proof -
  define inp where "inp = dropWhile isspace i"
  define s1 where "s1 = (if hd inp = CHR ''-'' \<or> hd inp = CHR ''+'' then tl inp else inp)"
  define w1 where "w1 = (if hd inp = CHR ''-'' \<or> hd inp = CHR ''+'' then w - 1 else w)"
  define pre where "pre = (w1 \<noteq> 0 \<and> take 1 s1 = ''0'' \<and> w1 - 1 \<noteq> 0
                   \<and> (take 1 (tl s1) = ''x'' \<or> take 1 (tl s1) = ''X''))"
  define s2 where "s2 = (if pre then tl (tl s1) else s1)"
  define w2 where "w2 = (if pre then w1 - 2 else w1)"
  define ds where "ds = takeWhile isxdigit (take w2 s2)"
  have "inp = drop (length (takeWhile isspace i)) i"
    by (simp add: inp_def dropWhile_eq_drop)
  then obtain a where a: "inp = drop a i" ..
  have "s1 = drop (if hd inp = CHR ''-'' \<or> hd inp = CHR ''+'' then 1 else 0) inp"
    by (simp add: s1_def drop_Suc)
  then obtain b where b: "s1 = drop b inp" ..
  have "s2 = drop (if pre then 2 else 0) s1"
    by (simp add: s2_def drop_Suc numeral_2_eq_2 tl_drop)
  then obtain c where c: "s2 = drop c s1" ..
  have r: "snd (snd (fscanfX w i v)) =
             (if inp = [] then [] else if ds = [] \<and> \<not> pre then s2 else drop (length ds) s2)"
    unfolding fscanfX_def Let_def inp_def [symmetric] s1_def [symmetric] w1_def [symmetric]
      pre_def [symmetric] s2_def [symmetric] w2_def [symmetric] ds_def [symmetric]
    by simp
  have "snd (snd (fscanfX w i v)) = drop (length i) i
        \<or> snd (snd (fscanfX w i v)) = drop (c + (b + a)) i
        \<or> snd (snd (fscanfX w i v)) = drop (length ds + (c + (b + a))) i"
    unfolding r using a b c by simp
  then show ?thesis by blast
qed

lemma fscanfX_fp_le: "fscanfX w i v = (r, v', i') \<Longrightarrow> length i' \<le> length i"
  using fscanfX_rest [of w i v] by auto

lemma skip_line_le: "length (skip_line n i) \<le> length i"
  by (induction n i rule: skip_line.induct) (auto intro: le_SucI)

lemma scan_count_fp: "scan_count f = (r, f') \<Longrightarrow> length (fp f') \<le> length (fp f)"
  by (auto simp: scan_count_def split: prod.splits dest: fscanfX_fp_le)

lemma scan_address_fp: "scan_address w f = (r, f') \<Longrightarrow> length (fp f') \<le> length (fp f)"
  by (auto simp: scan_address_def split: prod.splits dest: fscanfX_fp_le)

lemma scan_code_fp: "scan_code f = (r, f') \<Longrightarrow> length (fp f') \<le> length (fp f)"
  by (auto simp: scan_code_def split: prod.splits dest: fscanfX_fp_le)

lemma scan_value_fp: "scan_value f = (r, f') \<Longrightarrow> length (fp f') \<le> length (fp f)"
  by (auto simp: scan_value_def split: prod.splits dest: fscanfX_fp_le)

lemma fp_sprintf_s [simp]: "fp (sprintf_s i txt f) = fp f"
  by (simp add: sprintf_s_def)

lemma fp_file_error [simp]: "fp (file_error f) = fp f"
  by (simp add: file_error_def)

lemma next_record_fp: "next_record f = Continue f' \<Longrightarrow> length (fp f') \<le> length (fp f)"
  by (auto simp: next_record_def Let_def skip_line_le split: if_splits)

lemma hex_data_fp: "hex_data n i c f = (b, i', c', f') \<Longrightarrow> length (fp f') \<le> length (fp f)"
proof (induction n i c f rule: hex_data.induct)
  case (1 index checksum f)
  then show ?case by simp
next
  case (2 n index checksum f0)
  obtain ret f where sv: "scan_value f0 = (ret, f)"
    by (cases "scan_value f0")
  have le: "length (fp f) \<le> length (fp f0)"
    using sv by (rule scan_value_fp)
  show ?case
  proof (cases "ret = - 1 \<or> ret = EOF")
    case True
    with "2.prems" sv le show ?thesis by auto
  next
    case False
    with "2.prems" sv
    have "hex_data n (index + 2) (checksum + val f) (sprintf_s index (fmtX 2 (val f)) f)
            = (b, i', c', f')"
      by simp
    from "2.IH" [OF sv [symmetric] False this] le show ?thesis by simp
  qed
qed

lemma fp_hex_header [simp]: "fp (hex_header f) = fp f"
  by (simp add: hex_header_def)

lemma fp_send_record [simp]: "fp (send_record i c f) = fp f"
  by (simp add: send_record_def Let_def)

lemma hex_send_fp: "hex_send f = Continue f' \<Longrightarrow> length (fp f') \<le> length (fp f)"
  apply (simp add: hex_send_def Let_def split: prod.splits if_splits)
  apply (drule hex_data_fp)
  apply (drule next_record_fp)
  apply simp
  done

lemma hex_record_fp: "hex_record f = Continue f' \<Longrightarrow> length (fp f') \<le> length (fp f)"
  apply (simp add: hex_record_def Let_def split: prod.splits if_splits)
  apply (auto dest!: scan_count_fp scan_address_fp scan_code_fp next_record_fp hex_send_fp)
  done

lemma hex_step_fp: "hex_step f = Continue f' \<Longrightarrow> length (fp f') < length (fp f)"
  by (auto simp: hex_step_def split: list.splits if_splits dest!: hex_record_fp)

termination hex_loop
  by (relation "measure (\<lambda>f. length (fp f))") (auto dest: hex_step_fp)

declare hex_loop.simps [simp del]

lemma srec_data_fp: "srec_data n i c f = (i', c', f') \<Longrightarrow> length (fp f') \<le> length (fp f)"
proof (induction n i c f rule: srec_data.induct)
  case (1 index checksum f)
  then show ?case by simp
next
  case (2 n index checksum f0)
  obtain ret f where sv: "scan_value f0 = (ret, f)"
    by (cases "scan_value f0")
  have le: "length (fp f) \<le> length (fp f0)"
    using sv by (rule scan_value_fp)
  show ?case
  proof (cases "ret = - 1 \<or> ret = EOF")
    case True
    with "2.prems" sv le show ?thesis by auto
  next
    case False
    with "2.prems" sv
    have "srec_data n (index + 2) (checksum + val f) (sprintf_s index (fmtX 2 (val f)) f)
            = (i', c', f')"
      by simp
    from "2.IH" [OF sv [symmetric] False this] le show ?thesis by simp
  qed
qed

lemma fp_capture_start [simp]: "fp (capture_start f) = fp f"
  by (simp add: capture_start_def)

lemma srec_address_fp: "srec_address f = Continue f' \<Longrightarrow> length (fp f') \<le> length (fp f)"
  by (auto simp: srec_address_def split: prod.splits if_splits dest!: scan_address_fp)

lemma fp_srec_header [simp]: "fp (srec_header f) = fp f"
  by (simp add: srec_header_def)

lemma srec_send_fp: "length (fp (srec_send f)) \<le> length (fp f)"
  by (auto simp: srec_send_def Let_def split: prod.splits dest!: srec_data_fp)

lemma srec_tail_fp:
  assumes "(case srec_address f of Break f \<Rightarrow> Break f | Continue f \<Rightarrow> next_record (srec_send f)) = Continue f'"
  shows "length (fp f') \<le> length (fp f)"
proof (cases "srec_address f")
  case (Break g)
  with assms show ?thesis by simp
next
  case (Continue g)
  with assms have "next_record (srec_send g) = Continue f'" by simp
  then have "length (fp f') \<le> length (fp (srec_send g))" by (rule next_record_fp)
  also have "\<dots> \<le> length (fp g)" by (rule srec_send_fp)
  also have "\<dots> \<le> length (fp f)" using Continue by (rule srec_address_fp)
  finally show ?thesis .
qed

lemma srec_step_fp: "srec_step f = Continue f' \<Longrightarrow> length (fp f') < length (fp f)"
  apply (simp add: srec_step_def Let_def split: list.splits if_splits prod.splits)
    apply (auto dest!: scan_count_fp srec_tail_fp next_record_fp)
  done

termination srec_loop
  by (relation "measure (\<lambda>f. length (fp f))") (auto dest: srec_step_fp)

declare srec_loop.simps [simp del]

section \<open>Properties\<close>

subsection \<open>Formatting lemmas\<close>

lemma hex_length_le: "0 < k \<Longrightarrow> n < 16 ^ k \<Longrightarrow> length (hex n) \<le> k"
proof (induction k arbitrary: n)
  case 0
  then show ?case by simp
next
  case (Suc k)
  show ?case
  proof (cases "n < 16")
    case True
    then show ?thesis by (simp add: hex.simps)
  next
    case False
    with Suc.prems have k: "0 < k" by (cases k) auto
    from Suc.prems have "n div 16 < 16 ^ k"
      by (simp add: less_mult_imp_div_less mult.commute)
    from Suc.IH [OF k this] False show ?thesis
      by (subst hex.simps) simp
  qed
qed

lemma hex_length_gt: "16 ^ k \<le> n \<Longrightarrow> k < length (hex n)"
proof (induction k arbitrary: n)
  case 0
  then show ?case by (subst hex.simps) simp
next
  case (Suc k)
  have "(16::nat) \<le> 16 ^ Suc k" by simp
  with Suc.prems have n: "\<not> n < 16" by linarith
  from Suc.prems have "16 ^ k \<le> n div 16"
    by (simp add: less_eq_div_iff_mult_less_eq mult.commute)
  from Suc.IH [OF this] n show ?case
    by (subst hex.simps) simp
qed

lemma fmtX_unsigned:
  "0 \<le> i \<Longrightarrow> i < 2 ^ 32 \<Longrightarrow>
     fmtX w i = replicate (w - length (hex (nat i))) CHR ''0'' @ hex (nat i)"
  by (simp add: fmtX_def Let_def)

lemma fmtX_2_length: "0 \<le> i \<Longrightarrow> i \<le> 0xFF \<Longrightarrow> length (fmtX 2 i) = 2"
proof -
  assume a: "0 \<le> i" "i \<le> 0xFF"
  then have "nat i < 16 ^ 2" by simp
  then have "length (hex (nat i)) \<le> 2" by (intro hex_length_le) simp_all
  with a show ?thesis by (simp add: fmtX_unsigned)
qed

lemma fmtX_4_length: "0 \<le> i \<Longrightarrow> i \<le> 0xFFFF \<Longrightarrow> length (fmtX 4 i) = 4"
proof -
  assume a: "0 \<le> i" "i \<le> 0xFFFF"
  then have "nat i < 16 ^ 4" by simp
  then have "length (hex (nat i)) \<le> 4" by (intro hex_length_le) simp_all
  with a show ?thesis by (simp add: fmtX_unsigned)
qed

lemma fmtX_2_long: "0xFF < i \<Longrightarrow> i < 2 ^ 31 \<Longrightarrow> 2 < length (fmtX 2 i)"
proof -
  assume a: "0xFF < i" "i < 2 ^ 31"
  then have "16 ^ 2 \<le> nat i" by simp
  then have "2 < length (hex (nat i))" by (rule hex_length_gt)
  with a show ?thesis by (simp add: fmtX_unsigned)
qed

lemma writes_emit [simp]: "writes (emit e t) = writes t @ written e"
  by (simp add: writes_def emit_def)

lemma connected_emit [simp]: "connected (emit e t) = connected t"
  by (simp add: emit_def)

lemma writes_sendString: "connected t \<Longrightarrow> writes (sendString s t) = writes t @ [map nl_to_cr s]"
  by (simp add: sendString_def Let_def writes_def emit_def)

lemma connected_sendString [simp]: "connected (sendString s t) = connected t"
  by (simp add: sendString_def Let_def)

lemma and_mask_byte: "0 \<le> (i::int) \<Longrightarrow> 0 \<le> i AND 0xFF \<and> i AND 0xFF \<le> 0xFF"
  by (simp add: AND_upper2')

lemma and_mask_word: "0 \<le> (i::int) \<Longrightarrow> 0 \<le> i AND 0xFFFF \<and> i AND 0xFFFF \<le> 0xFFFF"
  by (simp add: AND_upper2')

lemma of_char_hexdigit:
  "d < 16 \<Longrightarrow> (of_char (hexdigit d) :: nat) = (if d < 10 then 48 + d else 55 + d)"
  by (simp add: hexdigit_def)

lemma hexdigit_not_NL: "d < 16 \<Longrightarrow> hexdigit d \<noteq> NL"
proof
  assume d: "d < 16" and e: "hexdigit d = NL"
  have "(of_char (hexdigit d) :: nat) = of_char NL" by (simp only: e)
  with d show False by (simp add: of_char_hexdigit NL_def split: if_splits)
qed

lemma NL_notin_hex: "NL \<notin> set (hex n)"
proof (induction n rule: hex.induct)
  case (1 n)
  have m: "hexdigit (n mod 16) \<noteq> NL"
    by (rule hexdigit_not_NL) simp
  show ?case
  proof (cases "n < 16")
    case True
    with hexdigit_not_NL [of n] show ?thesis by (subst hex.simps) auto
  next
    case False
    with 1 m show ?thesis by (subst hex.simps) auto
  qed
qed

lemma NL_neq_zero_char: "NL \<noteq> CHR ''0''"
  by (simp add: NL_def)

lemma NL_notin_fmtX: "NL \<notin> set (fmtX w i)"
  using NL_neq_zero_char by (auto simp: fmtX_def Let_def NL_notin_hex)

lemma map_nl_to_cr_id: "NL \<notin> set s \<Longrightarrow> map nl_to_cr s = s"
  by (induction s) (auto simp: nl_to_cr_def)

lemma nl_to_cr_fmtX [simp]: "map nl_to_cr (fmtX w i) = fmtX w i"
  by (simp add: map_nl_to_cr_id NL_notin_fmtX)

lemma nl_to_cr_plain [simp]:
  "nl_to_cr CHR ''A'' = CHR ''A''" "nl_to_cr CHR '' '' = CHR '' ''" "nl_to_cr CHR ''R'' = CHR ''R''"
  by (simp_all add: nl_to_cr_def NL_def)

lemma clamp_max: "(if n < 0 then 0 else n) = max 0 (n::int)"
  by (simp add: max_def)

lemma changeReg_134_writes:
  assumes "connected t"
  shows "writes (changeReg MODE_134 r n t) = writes t @
    (case r of
       REG_PC \<Rightarrow> [''A'' @ fmtX 4 (max 0 n AND 0xFFFF) @ ''     '']
     | REG_SR \<Rightarrow> [''A '' @ fmtX 2 (max 0 n AND 0xFF) @ ''    '']
     | REG_A \<Rightarrow> [''A  '' @ fmtX 2 (max 0 n) @ ''   '']
     | REG_X \<Rightarrow> [''A   '' @ fmtX 2 (max 0 n) @ ''  '']
     | REG_Y \<Rightarrow> [''A    '' @ fmtX 2 (max 0 n) @ '' '']
     | REG_SP \<Rightarrow> [''A     '' @ fmtX 2 (max 0 n)]
     | _ \<Rightarrow> []) @ [''R'']"
  using assms by (cases r) (simp_all add: changeReg_def clamp_max Let_def writes_sendString)

lemma and_255_mod: "(x::int) AND 0xFF = x mod 256"
proof -
  have "x AND mask 8 = take_bit 8 x" by (simp add: take_bit_eq_mask)
  then show ?thesis by (simp add: take_bit_eq_mod mask_eq_exp_minus_1)
qed

lemma and_65535_mod: "(x::int) AND 0xFFFF = x mod 65536"
proof -
  have "x AND mask 16 = take_bit 16 x" by (simp add: take_bit_eq_mask)
  then show ?thesis by (simp add: take_bit_eq_mod mask_eq_exp_minus_1)
qed

subsection \<open>Running the model on concrete inputs\<close>

named_theorems run \<open>equations for running the model on a concrete input\<close>

lemma replicate_numeral [run]: "replicate (numeral v) x = x # replicate (pred_numeral v) x"
  by (simp add: numeral_eq_Suc)

lemma hex_numeral [run]:
  "hex 0 = [hexdigit 0]"
  "hex (Suc 0) = [hexdigit (Suc 0)]"
  "hex (numeral v) = (if numeral v < (16::nat) then [hexdigit (numeral v)]
                      else hex (numeral v div 16) @ [hexdigit (numeral v mod 16)])"
  by (subst hex.simps, simp)+

lemma skip_line_numeral [run]:
  "skip_line (numeral v) [] = []"
  "skip_line (numeral v) (c # cs) = (if c = NL then cs else skip_line (pred_numeral v) cs)"
  by (simp_all add: numeral_eq_Suc)

lemma hex_data_numeral [run]:
  "hex_data (numeral v) index checksum f0 =
     (case scan_value f0 of (ret, f) \<Rightarrow>
        if ret = - 1 \<or> ret = EOF then (True, index, checksum, f)
        else hex_data (pred_numeral v) (index + 2) (checksum + val f) (sprintf_s index (fmtX 2 (val f)) f))"
  by (simp add: numeral_eq_Suc)

lemma srec_data_numeral [run]:
  "srec_data (numeral v) index checksum f0 =
     (case scan_value f0 of (ret, f) \<Rightarrow>
        if ret = - 1 \<or> ret = EOF then (index, checksum, file_error f)
        else srec_data (pred_numeral v) (index + 2) (checksum + val f) (sprintf_s index (fmtX 2 (val f)) f))"
  by (simp add: numeral_eq_Suc)

lemmas [run] =
  int32_def cstr_def NL_def CR_def hexdigit_def fmtX_def sprintf_at_def EOF_def isspace_def isxdigit_def
  xdigit_val_def fscanfX_def emit_def Gui_append_def Dialog_message_def fileError_def
  Fl_check_def connect_def disconnect_def nl_to_cr_def cr_to_nl_def sendChar_def sendString_def
  getData_def result_char_def getResult_def changeReg_def updateRegs_def jml_def jsl_def
  dump_def sprintf_s_def scan_count_def scan_address_def scan_code_def scan_value_def
  file_error_def update_terminal_def next_record_def hex_header_def checksum0_def send_record_def
  srec_header_def hex_send_def hex_record_def hex_step_def
  hex_loop.simps new_frame_def uploadHex_def schar_def capture_start_def srec_address_def
  srec_send_def srec_step_def srec_loop.simps uploadSrec_def tolower_def strcasecmp_eq_def
  upload_def writes_def link_up_def link_down_def char_of_eq_iff Let_def

subsection \<open>Framing layer: register commands and the closed link\<close>

lemma and_byte_id: "0 \<le> (n::int) \<Longrightarrow> n \<le> 0xFF \<Longrightarrow> n AND 0xFF = n"
proof -
  assume a: "0 \<le> n" "n \<le> 0xFF"
  have "n AND mask 8 = take_bit 8 n" by (simp add: take_bit_eq_mask)
  also have "\<dots> = n" using a by (simp add: take_bit_eq_mod)
  finally show ?thesis by (simp add: mask_eq_exp_minus_1)
qed

lemma and_word_id: "0 \<le> (n::int) \<Longrightarrow> n \<le> 0xFFFF \<Longrightarrow> n AND 0xFFFF = n"
proof -
  assume a: "0 \<le> n" "n \<le> 0xFFFF"
  have "n AND mask 16 = take_bit 16 n" by (simp add: take_bit_eq_mask)
  also have "\<dots> = n" using a by (simp add: take_bit_eq_mod)
  finally show ?thesis by (simp add: mask_eq_exp_minus_1)
qed

text \<open>
  Claim C7 as stated fails: under Dialect B, setting the accumulator to \<open>0x0A\<close> writes
  the 8 characters \<^verbatim>\<open>A  0A   \<close> and then \<^verbatim>\<open>R\<close>: 9 bytes, and no line of 10 characters.
\<close>

theorem C7_counterexample:
  "writes (changeReg MODE_134 REG_A 0x0A link_up) = [''A  0A   '', ''R'']
   \<and> map length (writes (changeReg MODE_134 REG_A 0x0A link_up)) = [8, 1]"
  by (simp add: run cong: let_weak_cong)

text \<open>
  Claim C7, amended. Under Dialect B the register-set command for PC, SR, A, X, Y and SP
  is the letter \<open>A\<close> followed by six fields in that order: the field of the selected
  register holds a number in hexadecimal, every other field is a single space. The
  program counter's field holds the low 16 bits of the value in 4 digits and the status
  register's field the low 8 bits in 2 digits, for every value; the field of A, X, Y or
  SP holds the value in 2 digits when the value is at most \<open>0xFF\<close> (a negative value is
  sent as 0). The line is then 10 characters long for PC and 8 characters for the other
  registers, and a bare \<open>R\<close> follows it. For DP and DB only the \<open>R\<close> is written.
\<close>

theorem C7_dialect_B_command:
  assumes "connected t"
    and "r = REG_PC \<or> r = REG_SR \<or> r = REG_DP \<or> r = REG_DB \<or> n \<le> 0xFF"
  shows "writes (changeReg MODE_134 r n t) =
           writes t @
           (if r = REG_DP \<or> r = REG_DB then []
            else [''A'' @ replicate (field_134 r) CHR '' ''
                    @ fmtX (if r = REG_PC then 4 else 2) (shown_134 r n)
                    @ replicate (5 - field_134 r) CHR '' '']) @ [''R'']
         \<and> (if r = REG_DP \<or> r = REG_DB then True
            else length (fmtX (if r = REG_PC then 4 else 2) (shown_134 r n))
                   = (if r = REG_PC then 4 else 2)
                 \<and> length (''A'' @ replicate (field_134 r) CHR '' ''
                    @ fmtX (if r = REG_PC then 4 else 2) (shown_134 r n)
                    @ replicate (5 - field_134 r) CHR '' '')
                   = (if r = REG_PC then 10 else 8))"
proof -
  have l4: "length (fmtX 4 (max 0 n mod 0x10000)) = 4"
    by (intro fmtX_4_length) simp_all
  have l2: "length (fmtX 2 (max 0 n mod 0x100)) = 2"
    by (intro fmtX_2_length) simp_all
  have l: "length (fmtX 2 (max 0 n)) = 2" if "n \<le> 0xFF"
    using that by (intro fmtX_2_length) simp_all
  show ?thesis
    using assms l
    by (cases r)
       (simp_all add: changeReg_134_writes shown_134_def and_255_mod and_65535_mod l2 l4
          replicate_numeral)
qed

text \<open>
  Claim C7, amended, on three commands: the accumulator set to \<open>0x0A\<close> gives the line
  \<^verbatim>\<open>A  0A   \<close>, the program counter set to \<open>0x18000\<close> the line \<^verbatim>\<open>A8000     \<close>, the status
  register set to \<open>0x1FF\<close> the line \<^verbatim>\<open>A FF    \<close>.
\<close>

theorem C7_dialect_B_command_witness:
  "connected link_up
   \<and> writes (changeReg MODE_134 REG_A 0x0A link_up) = [''A  0A   '', ''R'']
   \<and> writes (changeReg MODE_134 REG_PC 0x18000 link_up) = [''A8000     '', ''R'']
   \<and> writes (changeReg MODE_134 REG_SR 0x1FF link_up) = [''A FF    '', ''R'']"
proof -
  have h: "connected link_up"
    by (simp add: link_up_def)
  have n: "REG_A = REG_PC \<or> REG_A = REG_SR \<or> REG_A = REG_DP \<or> REG_A = REG_DB \<or> (0x0A::int) \<le> 0xFF"
    by simp
  have e: "fmtX 2 (shown_134 REG_A 0x0A) = ''0A''" "fmtX 4 (shown_134 REG_PC 0x18000) = ''8000''"
    "fmtX 2 (shown_134 REG_SR 0x1FF) = ''FF''" "writes link_up = []"
    by (simp_all add: run shown_134_def)
  from C7_dialect_B_command [OF h n] C7_dialect_B_command [OF h, of REG_PC "0x18000"]
    C7_dialect_B_command [OF h, of REG_SR "0x1FF"] h e
  show ?thesis
    by (simp add: replicate_numeral)
qed

text \<open>
  Claim C10. Under Dialect B the value is masked only for the program counter (16 bits)
  and the status register (8 bits), whose fields therefore always have 4 and 2 digits.
  For A, X, Y and SP the value is printed unmasked with a minimum width of 2: the field
  has exactly 2 characters if and only if the value is at most \<open>0xFF\<close>, and more than 2
  (so that the trailing spaces move to the right) if and only if it is greater. The
  value is a non-negative \<^verbatim>\<open>int\<close>; a negative one is replaced by 0 first.
\<close>

theorem C10_masking:
  assumes "connected t" and "0 \<le> n" and "n < 2 ^ 31"
  shows "writes (changeReg MODE_134 REG_PC n t) = writes t @ [''A'' @ fmtX 4 (n AND 0xFFFF) @ ''     '', ''R'']
       \<and> length (fmtX 4 (n AND 0xFFFF)) = 4
       \<and> writes (changeReg MODE_134 REG_SR n t) = writes t @ [''A '' @ fmtX 2 (n AND 0xFF) @ ''    '', ''R'']
       \<and> length (fmtX 2 (n AND 0xFF)) = 2
       \<and> writes (changeReg MODE_134 REG_A n t) = writes t @ [''A  '' @ fmtX 2 n @ ''   '', ''R'']
       \<and> writes (changeReg MODE_134 REG_X n t) = writes t @ [''A   '' @ fmtX 2 n @ ''  '', ''R'']
       \<and> writes (changeReg MODE_134 REG_Y n t) = writes t @ [''A    '' @ fmtX 2 n @ '' '', ''R'']
       \<and> writes (changeReg MODE_134 REG_SP n t) = writes t @ [''A     '' @ fmtX 2 n, ''R'']
       \<and> (length (fmtX 2 n) = 2) = (n \<le> 0xFF)
       \<and> (2 < length (fmtX 2 n)) = (0xFF < n)"
proof -
  have w: "length (fmtX 4 (n AND 0xFFFF)) = 4"
    using and_mask_word [OF assms(2)] by (simp add: fmtX_4_length)
  have b: "length (fmtX 2 (n AND 0xFF)) = 2"
    using and_mask_byte [OF assms(2)] by (simp add: fmtX_2_length)
  have s: "(length (fmtX 2 n) = 2) = (n \<le> 0xFF)" "(2 < length (fmtX 2 n)) = (0xFF < n)"
    using fmtX_2_length [OF assms(2)] fmtX_2_long [OF _ assms(3)] by fastforce+
  have m: "max 0 n = n"
    using assms(2) by simp
  show ?thesis
    using assms(1) by (simp add: changeReg_134_writes m w b s)
qed

text \<open>
  Claim C10 at \<open>0x12345\<close>: the accumulator's field grows to five digits, while the
  program counter's field keeps the low 16 bits.
\<close>

theorem C10_masking_witness:
  "connected link_up \<and> (0::int) \<le> 0x12345 \<and> (0x12345::int) < 2 ^ 31
   \<and> writes (changeReg MODE_134 REG_A 0x12345 link_up) = [''A  12345   '', ''R'']
   \<and> writes (changeReg MODE_134 REG_PC 0x12345 link_up) = [''A2345     '', ''R'']
   \<and> 2 < length (fmtX 2 0x12345)"
proof -
  have h: "connected link_up" "(0::int) \<le> 0x12345" "(0x12345::int) < 2 ^ 31"
    by (simp_all add: link_up_def)
  have e: "fmtX 2 0x12345 = ''12345''" "fmtX 4 (0x12345 AND 0xFFFF) = ''2345''"
    "writes link_up = []"
    by (simp_all add: run)
  from C10_masking [OF h] h e show ?thesis
    by simp
qed

text \<open>
  Claim C9. While \<open>connected\<close> is false, sending a byte or a string, setting a
  register, refreshing the registers, jump, call and memory dump leave the terminal as it
  is: nothing is written to the port and the connection state does not change. An upload
  writes nothing either (it only reports that there is no connection), and a connect
  attempt that fails, at \<^verbatim>\<open>open\<close> or at \<^verbatim>\<open>tcsetattr\<close>, leaves \<open>connected\<close> false.
\<close>

theorem C9_disconnected:
  assumes "\<not> connected t"
  shows "sendChar c t = t \<and> sendString s t = t \<and> changeReg m r n t = t \<and> updateRegs m t = t
       \<and> jml m a t = t \<and> jsl m a t = t \<and> dump m a t = t
       \<and> writes (upload choice t) = writes t \<and> connected (upload choice t) = False
       \<and> writes (connect hw False ok t) = writes t \<and> connected (connect hw False ok t) = False
       \<and> writes (connect hw True False t) = writes t \<and> connected (connect hw True False t) = False"
  using assms
  by (simp add: sendChar_def sendString_def changeReg_def updateRegs_def jml_def jsl_def dump_def
        upload_def connect_def Dialog_message_def)

text \<open>
  Claim C9 after a failed connect attempt on a closed link: a register-set operation
  changes nothing, and an upload writes nothing.
\<close>

theorem C9_disconnected_witness:
  "\<not> connected (connect True False True link_down)
   \<and> changeReg MODE_265 REG_Y 0x1234 (connect True False True link_down)
       = connect True False True link_down
   \<and> writes (upload (Some (''.hex'', Some '':00000001FF'')) (connect True False True link_down)) = []"
proof -
  have h: "\<not> connected (connect True False True link_down)"
    by (simp add: connect_def link_down_def Dialog_message_def)
  have e: "writes (connect True False True link_down) = []"
    by (simp add: run)
  from C9_disconnected [OF h, of _ _ MODE_265 REG_Y "0x1234" _ "Some (''.hex'', Some '':00000001FF'')"] h e
  show ?thesis by simp
qed

subsection \<open>Upload engine: what an upload writes\<close>

lemma grows_refl [simp]: "grows t t"
  by (simp add: grows_def)

lemma grows_trans: "grows t t' \<Longrightarrow> grows t' t'' \<Longrightarrow> grows t t''"
  by (auto simp: grows_def)

lemma grows_same:
  "connected t' = connected t \<Longrightarrow> overrun t' = overrun t \<Longrightarrow> writes t' = writes t \<Longrightarrow> grows t t'"
  by (simp add: grows_def)

lemma grows_more:
  "connected t' = connected t \<Longrightarrow> (overrun t \<longrightarrow> overrun t') \<Longrightarrow> writes t' = writes t
     \<Longrightarrow> grows t t'"
  by (simp add: grows_def)


lemma overrun_emit [simp]: "overrun (emit e t) = overrun t"
  by (simp add: emit_def)

lemma overrun_fileError [simp]: "overrun (fileError t) = overrun t"
  by (simp add: fileError_def Dialog_message_def)

lemma overrun_Fl_check [simp]: "overrun (Fl_check t) = overrun t"
  by (simp add: Fl_check_def split: list.splits)

lemma overrun_getData [simp]: "overrun (getData t) = overrun t"
  by (simp add: getData_def Let_def split: prod.splits)

lemma tm_update_terminal [simp]:
  "cancelled (update_terminal t) = cancelled t" "esc (update_terminal t) = esc t"
  "overrun (update_terminal t) = overrun t"
  by (simp_all add: update_terminal_def Let_def Gui_append_def emit_def getData_def split: prod.splits)

lemma tm_sendString [simp]:
  "cancelled (sendString s t) = cancelled t" "esc (sendString s t) = esc t"
  "overrun (sendString s t) = overrun t"
  by (simp_all add: sendString_def Let_def emit_def)

lemma overrun_sprintf_s [simp]:
  "overrun (tm (sprintf_s i txt f)) = (overrun (tm f) \<or> 256 < i + length txt + 1)"
  by (simp add: sprintf_s_def)

lemma writes_overrun [simp]: "writes (t\<lparr>overrun := b\<rparr>) = writes t"
  by (simp add: writes_def)

lemma writes_cancelled [simp]: "writes (t\<lparr>cancelled := b\<rparr>) = writes t"
  by (simp add: writes_def)

lemma writes_fileError [simp]: "writes (fileError t) = writes t"
  by (simp add: fileError_def Dialog_message_def)

lemma connected_fileError [simp]: "connected (fileError t) = connected t"
  by (simp add: fileError_def Dialog_message_def)

lemma writes_Fl_check [simp]: "writes (Fl_check t) = writes t"
  by (simp add: Fl_check_def writes_def split: list.splits)

lemma connected_Fl_check [simp]: "connected (Fl_check t) = connected t"
  by (simp add: Fl_check_def split: list.splits)

lemma writes_getData [simp]: "writes (getData t) = writes t"
  by (simp add: getData_def writes_def Let_def split: prod.splits)

lemma connected_getData [simp]: "connected (getData t) = connected t"
  by (simp add: getData_def Let_def split: prod.splits)

lemma writes_update_terminal [simp]: "writes (update_terminal t) = writes t"
  by (simp add: update_terminal_def Let_def Gui_append_def)

lemma connected_update_terminal [simp]: "connected (update_terminal t) = connected t"
  by (simp add: update_terminal_def Let_def Gui_append_def)

lemma grows_next_record: "grows (tm f) (tm (frame_of (next_record f)))"
  by (simp add: next_record_def Let_def frame_of_def grows_same)

lemma tm_scan [simp]:
  "tm (snd (scan_count f)) = tm f" "tm (snd (scan_address w f)) = tm f"
  "tm (snd (scan_code f)) = tm f" "tm (snd (scan_value f)) = tm f"
  by (simp_all add: scan_count_def scan_address_def scan_code_def scan_value_def split: prod.splits)

lemma sbuf_scan [simp]:
  "sbuf (snd (scan_count f)) = sbuf f" "sbuf (snd (scan_address w f)) = sbuf f"
  "sbuf (snd (scan_code f)) = sbuf f" "sbuf (snd (scan_value f)) = sbuf f"
  by (simp_all add: scan_count_def scan_address_def scan_code_def scan_value_def split: prod.splits)

lemma take2_sprintf_at: "2 \<le> i \<Longrightarrow> take 2 (sprintf_at i txt s) = take 2 s"
  by (simp add: sprintf_at_def)

lemma sbuf_sprintf_s [simp]: "sbuf (sprintf_s i txt f) = sprintf_at i txt (sbuf f)"
  by (simp add: sprintf_s_def)

lemma writes_sprintf_s [simp]: "writes (tm (sprintf_s i txt f)) = writes (tm f)"
  by (simp add: sprintf_s_def)

lemma connected_sprintf_s [simp]: "connected (tm (sprintf_s i txt f)) = connected (tm f)"
  by (simp add: sprintf_s_def)

lemma hex_data_keeps:
  "hex_data n i c f = (b, i', c', f') \<Longrightarrow> 2 \<le> i \<Longrightarrow>
     2 \<le> i' \<and> take 2 (sbuf f') = take 2 (sbuf f) \<and> writes (tm f') = writes (tm f)
     \<and> connected (tm f') = connected (tm f) \<and> (overrun (tm f) \<longrightarrow> overrun (tm f'))"
proof (induction n i c f rule: hex_data.induct)
  case (1 index checksum f)
  then show ?case by simp
next
  case (2 n index checksum f0)
  obtain ret f where sv: "scan_value f0 = (ret, f)"
    by (cases "scan_value f0")
  then have k: "tm f = tm f0" "sbuf f = sbuf f0"
    using tm_scan(4) [of f0] sbuf_scan(4) [of f0] by simp_all
  show ?case
  proof (cases "ret = - 1 \<or> ret = EOF")
    case True
    with "2.prems" sv k show ?thesis by auto
  next
    case False
    with "2.prems" sv
    have "hex_data n (index + 2) (checksum + val f) (sprintf_s index (fmtX 2 (val f)) f)
            = (b, i', c', f')"
      by simp
    from "2.IH" [OF sv [symmetric] False this] "2.prems"(2) k show ?thesis
      by (simp add: take2_sprintf_at)
  qed
qed

lemma srec_data_keeps:
  "srec_data n i c f = (i', c', f') \<Longrightarrow> 2 \<le> i \<Longrightarrow>
     2 \<le> i' \<and> take 2 (sbuf f') = take 2 (sbuf f) \<and> writes (tm f') = writes (tm f)
     \<and> connected (tm f') = connected (tm f) \<and> (overrun (tm f) \<longrightarrow> overrun (tm f'))"
proof (induction n i c f rule: srec_data.induct)
  case (1 index checksum f)
  then show ?case by simp
next
  case (2 n index checksum f0)
  obtain ret f where sv: "scan_value f0 = (ret, f)"
    by (cases "scan_value f0")
  then have k: "tm f = tm f0" "sbuf f = sbuf f0"
    using tm_scan(4) [of f0] sbuf_scan(4) [of f0] by simp_all
  show ?case
  proof (cases "ret = - 1 \<or> ret = EOF")
    case True
    with "2.prems" sv k show ?thesis by (auto simp: file_error_def)
  next
    case False
    with "2.prems" sv
    have "srec_data n (index + 2) (checksum + val f) (sprintf_s index (fmtX 2 (val f)) f)
            = (i', c', f')"
      by simp
    from "2.IH" [OF sv [symmetric] False this] "2.prems"(2) k show ?thesis
      by (simp add: take2_sprintf_at)
  qed
qed

lemma nl_to_cr_S2 [simp]: "map nl_to_cr ''S2'' = ''S2''"
  by (simp add: nl_to_cr_def NL_def)

lemma grows_sendString: "take 2 s = ''S2'' \<Longrightarrow> grows t (sendString s t)"
proof (cases "connected t")
  case True
  assume "take 2 s = ''S2''"
  then have "take 2 (map nl_to_cr s) = ''S2''"
    by (simp add: take_map nl_to_cr_def NL_def)
  with True show ?thesis
    by (simp add: grows_def writes_sendString load_text_def)
next
  case False
  then show ?thesis by (simp add: sendString_def)
qed

lemma grows_file_error: "grows (tm f) (tm (file_error f))"
  by (simp add: file_error_def grows_same)

lemma take2_hex_header [simp]: "take 2 (sbuf (hex_header f)) = ''S2''"
  by (simp add: hex_header_def sprintf_at_def)

lemma take2_srec_header [simp]: "take 2 (sbuf (srec_header f)) = ''S2''"
  by (simp add: srec_header_def sprintf_at_def)

lemma tm_headers [simp]:
  "writes (tm (hex_header f)) = writes (tm f)" "connected (tm (hex_header f)) = connected (tm f)"
  "writes (tm (srec_header f)) = writes (tm f)" "connected (tm (srec_header f)) = connected (tm f)"
  by (simp_all add: hex_header_def srec_header_def)

lemma overrun_headers:
  "overrun (tm f) \<Longrightarrow> overrun (tm (hex_header f))"
  "overrun (tm f) \<Longrightarrow> overrun (tm (srec_header f))"
  by (simp_all add: hex_header_def srec_header_def)

lemma grows_send_record:
  assumes "2 \<le> i" and "take 2 (sbuf f) = ''S2''"
  shows "grows (tm f) (tm (send_record i c f))"
proof -
  define h1 where "h1 = sprintf_s i (fmtX 2 (0xFF - (c AND 0xFF)) @ [NL]) f"
  define h2 where "h2 = h1\<lparr>tm := sendString (sbuf h1) (tm h1)\<rparr>"
  have r: "send_record i c f = h2\<lparr>tm := update_terminal (tm h2)\<rparr>"
    by (simp add: send_record_def Let_def h1_def h2_def)
  have "take 2 (sbuf h1) = ''S2''"
    using assms by (simp add: h1_def take2_sprintf_at)
  then have "grows (tm h1) (tm h2)"
    by (simp add: h2_def grows_sendString)
  moreover have "grows (tm f) (tm h1)"
    by (simp add: h1_def grows_more)
  moreover have "grows (tm h2) (tm (send_record i c f))"
    by (simp add: r grows_same)
  ultimately show ?thesis
    by (metis grows_trans)
qed

lemma grows_hex_send: "grows (tm f0) (tm (frame_of (hex_send f0)))"
proof -
  obtain cancel i c g
    where hd: "hex_data (nat (count (hex_header f0))) 10 (checksum0 (hex_header f0)) (hex_header f0)
                 = (cancel, i, c, g)"
    by (cases "hex_data (nat (count (hex_header f0))) 10 (checksum0 (hex_header f0)) (hex_header f0)")
  from hex_data_keeps [OF hd]
  have g: "2 \<le> i" "take 2 (sbuf g) = ''S2''" "writes (tm g) = writes (tm f0)"
    "connected (tm g) = connected (tm f0)" "overrun (tm f0) \<longrightarrow> overrun (tm g)"
    by (simp_all add: overrun_headers)
  have s: "hex_send f0 =
    (if cancel then Break (file_error g) else next_record (send_record i c g))"
    using hd by (simp add: hex_send_def Let_def)
  show ?thesis
  proof (cases cancel)
    case True
    with s g show ?thesis by (simp add: frame_of_def file_error_def grows_more)
  next
    case False
    have "grows (tm f0) (tm g)"
      using g by (simp add: grows_more)
    moreover have "grows (tm g) (tm (send_record i c g))"
      using g by (intro grows_send_record)
    moreover have "grows (tm (send_record i c g)) (tm (frame_of (next_record (send_record i c g))))"
      by (rule grows_next_record)
    ultimately show ?thesis
      using s False by (metis grows_trans)
  qed
qed

lemma grows_srec_send: "grows (tm f0) (tm (srec_send f0))"
proof -
  obtain i c g
    where hd: "srec_data (nat (count (srec_header f0))) 10 (checksum0 (srec_header f0)) (srec_header f0)
                 = (i, c, g)"
    by (cases "srec_data (nat (count (srec_header f0))) 10 (checksum0 (srec_header f0)) (srec_header f0)")
  from srec_data_keeps [OF hd]
  have g: "2 \<le> i" "take 2 (sbuf g) = ''S2''" "writes (tm g) = writes (tm f0)"
    "connected (tm g) = connected (tm f0)" "overrun (tm f0) \<longrightarrow> overrun (tm g)"
    by (simp_all add: overrun_headers)
  have s: "srec_send f0 = send_record i c g"
    using hd by (simp add: srec_send_def Let_def)
  have "grows (tm f0) (tm g)"
    using g by (simp add: grows_more)
  moreover have "grows (tm g) (tm (send_record i c g))"
    using g by (intro grows_send_record)
  ultimately show ?thesis
    using s by (metis grows_trans)
qed

lemma grows_hex_record: "grows (tm f0) (tm (frame_of (hex_record f0)))"
proof -
  obtain r1 f1 where s1: "scan_count (f0\<lparr>segment := 0\<rparr>) = (r1, f1)"
    by (cases "scan_count (f0\<lparr>segment := 0\<rparr>)")
  obtain r2 f2 where s2: "scan_address 4 f1 = (r2, f2)"
    by (cases "scan_address 4 f1")
  define f2' where "f2' = (if start_address f2 = - 1 then f2\<lparr>start_address := address f2\<rparr> else f2)"
  obtain r3 f3 where s3: "scan_code f2' = (r3, f3)"
    by (cases "scan_code f2'")
  have t1: "tm f1 = tm f0" using tm_scan(1) [of "f0\<lparr>segment := 0\<rparr>"] s1 by simp
  have t2: "tm f2 = tm f0" using tm_scan(2) [of 4 f1] s2 t1 by simp
  have t2': "tm f2' = tm f0" using t2 by (simp add: f2'_def)
  have t3: "tm f3 = tm f0" using tm_scan(3) [of f2'] s3 t2' by simp
  have n3: "grows (tm f0) (tm (frame_of (next_record f3)))"
    using grows_next_record [of f3] t3 by simp
  have n4: "grows (tm f0) (tm (frame_of (next_record (f3\<lparr>segment := address f3\<rparr>))))"
    using grows_next_record [of "f3\<lparr>segment := address f3\<rparr>"] t3 by simp
  have n5: "grows (tm f0) (tm (frame_of (hex_send f3)))"
    using grows_hex_send [of f3] t3 by simp
  show ?thesis
    using s1 s2 s3 t1 t2 t3 n3 n4 n5
    by (simp add: hex_record_def Let_def f2'_def [symmetric] frame_of_def file_error_def grows_same)
qed

lemma grows_hex_step: "grows (tm f) (tm (frame_of (hex_step f)))"
proof (cases "fp f")
  case Nil
  then show ?thesis by (simp add: hex_step_def frame_of_def)
next
  case (Cons c rest)
  show ?thesis
  proof (cases "c = CHR '':''")
    case True
    with Cons grows_hex_record [of "f\<lparr>fp := rest\<rparr>"] show ?thesis
      by (simp add: hex_step_def)
  next
    case False
    with Cons show ?thesis by (simp add: hex_step_def frame_of_def)
  qed
qed

lemma grows_hex_loop: "grows (tm f) (tm (hex_loop f))"
proof (induction f rule: hex_loop.induct)
  case (1 f)
  show ?case
  proof (cases "hex_step f")
    case (Break g)
    with grows_hex_step [of f] show ?thesis
      by (subst hex_loop.simps) (simp add: frame_of_def)
  next
    case (Continue g)
    with grows_hex_step [of f] have "grows (tm f) (tm g)"
      by (simp add: frame_of_def)
    moreover from Continue have "hex_loop f = hex_loop g"
      by (subst hex_loop.simps) simp
    ultimately show ?thesis
      using "1.IH" [OF Continue] by (metis grows_trans)
  qed
qed

lemma tm_capture_start [simp]: "tm (capture_start f) = tm f"
  by (simp add: capture_start_def)

lemma grows_srec_address: "grows (tm f0) (tm (frame_of (srec_address f0)))"
proof -
  obtain r4 f4 where s4: "scan_address 4 f0 = (r4, f4)"
    by (cases "scan_address 4 f0")
  obtain r6 f6 where s6: "scan_address 6 f0 = (r6, f6)"
    by (cases "scan_address 6 f0")
  have t: "tm f4 = tm f0" "tm f6 = tm f0"
    using tm_scan(2) [of 4 f0] tm_scan(2) [of 6 f0] s4 s6 by simp_all
  show ?thesis
    using s4 s6 t by (simp add: srec_address_def frame_of_def file_error_def grows_same)
qed

lemma grows_srec_tail:
  "grows (tm f) (tm (frame_of (case srec_address f of
                                 Break f \<Rightarrow> Break f
                               | Continue f \<Rightarrow> next_record (srec_send f))))"
proof (cases "srec_address f")
  case (Break g)
  with grows_srec_address [of f] show ?thesis by simp
next
  case (Continue g)
  with grows_srec_address [of f] have "grows (tm f) (tm g)"
    by (simp add: frame_of_def)
  moreover have "grows (tm g) (tm (srec_send g))"
    by (rule grows_srec_send)
  moreover have "grows (tm (srec_send g)) (tm (frame_of (next_record (srec_send g))))"
    by (rule grows_next_record)
  ultimately show ?thesis
    using Continue by (metis (no_types, lifting) grows_trans outcome.simps(6))
qed

lemma grows_srec_step: "grows (tm f0) (tm (frame_of (srec_step f0)))"
proof (cases "fp f0")
  case Nil
  then show ?thesis by (simp add: srec_step_def frame_of_def)
next
  case c0: (Cons p0 r0)
  show ?thesis
  proof (cases r0)
    case Nil
    with c0 show ?thesis by (simp add: srec_step_def frame_of_def)
  next
    case c1: (Cons p1 r1)
    define f where "f = f0\<lparr>fp := r1, code := schar p1 - 48\<rparr>"
    obtain ret f1 where s1: "scan_count f = (ret, f1)"
      by (cases "scan_count f")
    define f2 where "f2 = (if code f1 = 1 then f1\<lparr>count := count f1 - 3\<rparr>
                           else if code f1 = 2 then f1\<lparr>count := count f1 - 4\<rparr>
                           else f1)"
    have t: "tm f = tm f0" by (simp add: f_def)
    have t1: "tm f1 = tm f0" using tm_scan(1) [of f] s1 t by simp
    have t2: "tm f2 = tm f0" using t1 by (simp add: f2_def)
    have a: "grows (tm f0) (tm (frame_of (case srec_address f2 of
                                 Break f \<Rightarrow> Break f
                               | Continue f \<Rightarrow> next_record (srec_send f))))"
      using grows_srec_tail [of f2] t2 by simp
    have b: "grows (tm f0) (tm (frame_of (next_record f2)))"
      using grows_next_record [of f2] t2 by simp
    show ?thesis
      using c0 c1 s1 t t1 t2 a b
      by (simp add: srec_step_def Let_def f_def [symmetric] f2_def [symmetric] frame_of_def
            file_error_def grows_same)
  qed
qed

lemma grows_srec_loop: "grows (tm f) (tm (srec_loop f))"
proof (induction f rule: srec_loop.induct)
  case (1 f)
  show ?case
  proof (cases "srec_step f")
    case (Break g)
    with grows_srec_step [of f] show ?thesis
      by (subst srec_loop.simps) (simp add: frame_of_def)
  next
    case (Continue g)
    with grows_srec_step [of f] have "grows (tm f) (tm g)"
      by (simp add: frame_of_def)
    moreover from Continue have "srec_loop f = srec_loop g"
      by (subst srec_loop.simps) simp
    ultimately show ?thesis
      using "1.IH" [OF Continue] by (metis grows_trans)
  qed
qed

lemma finish_upload:
  assumes "connected (tm f)"
  shows "writes (emit (SetAddress a)
           (tm ((sprintf_s 0 (''S804000000FB'' @ [NL]) f)
                  \<lparr>tm := sendString (sbuf (sprintf_s 0 (''S804000000FB'' @ [NL]) f))
                          (tm (sprintf_s 0 (''S804000000FB'' @ [NL]) f))\<rparr>)))
         = writes (tm f) @ [terminator]"
  using assms
  by (simp add: sprintf_s_def sprintf_at_def writes_sendString terminator_def nl_to_cr_def NL_def)

lemma terminator_not_load: "list_all load_text ws \<Longrightarrow> terminator \<notin> set ws"
  by (auto simp: list_all_iff load_text_def terminator_def)

text \<open>
  Claim C3. An upload that has opened its file, HEX or S-record, on an open link, and
  that stays within its line buffer, writes the terminator record \<^verbatim>\<open>S804000000FB\<close>
  exactly once, as the last thing it writes: everything written before it is a load
  record (\<^verbatim>\<open>S2...\<close>), whatever the file contains and whatever the cancel flag and the
  escape key do. Both uploads are total functions, so this covers every way the loop can
  end: the end of the file, an end marker, a parse error, a record type that is not
  accepted, cancellation. (A run that overruns the line buffer, by a record of more
  than 121 data bytes, is a run on which the C function is undefined.)
\<close>

theorem C3_terminator:
  assumes "connected t"
  shows "(\<not> overrun (uploadHex (Some content) t) \<longrightarrow>
            (\<exists>ws. writes (uploadHex (Some content) t) = writes t @ ws @ [terminator]
                  \<and> terminator \<notin> set ws))
       \<and> (\<not> overrun (uploadSrec (Some content) t) \<longrightarrow>
            (\<exists>ws. writes (uploadSrec (Some content) t) = writes t @ ws @ [terminator]
                  \<and> terminator \<notin> set ws))"
proof -
  define t1 where "t1 = Gui_append ([NL] @ ''>> Uploading Program, ESC to cancel.'' @ [NL]) t"
  have c1: "connected t1" "writes t1 = writes t"
    using assms by (simp_all add: t1_def Gui_append_def)
  have h: "grows t1 (tm (hex_loop (new_frame content t1)))"
    using grows_hex_loop [of "new_frame content t1"] by (simp add: new_frame_def)
  have s: "grows t1 (tm (srec_loop (new_frame content t1)))"
    using grows_srec_loop [of "new_frame content t1"] by (simp add: new_frame_def)
  from h c1 obtain ws where ws: "connected (tm (hex_loop (new_frame content t1)))"
    "writes (tm (hex_loop (new_frame content t1))) = writes t @ ws" "list_all load_text ws"
    by (auto simp: grows_def)
  from s c1 obtain vs where vs: "connected (tm (srec_loop (new_frame content t1)))"
    "writes (tm (srec_loop (new_frame content t1))) = writes t @ vs" "list_all load_text vs"
    by (auto simp: grows_def)
  have "writes (uploadHex (Some content) t) = writes t @ ws @ [terminator]"
    unfolding uploadHex_def Let_def option.case t1_def [symmetric]
    using finish_upload [OF ws(1)] ws(2) by simp
  moreover have "writes (uploadSrec (Some content) t) = writes t @ vs @ [terminator]"
    unfolding uploadSrec_def Let_def option.case t1_def [symmetric]
    using finish_upload [OF vs(1)] vs(2) by simp
  ultimately show ?thesis
    using terminator_not_load [OF ws(3)] terminator_not_load [OF vs(3)] by blast
qed

text \<open>
  Claim C3 on a HEX file and an S-record file that end in the middle of a record, with
  the runs spelled out for the three ways to leave the loop: a file read to its end
  marker (or, for S-records, to its S9 record), an upload cancelled after its first
  record, and a file that ends in the middle of a record.
\<close>

theorem C3_terminator_witness:
  "connected link_up
   \<and> \<not> overrun (uploadHex (Some '':0280000001'') link_up)
   \<and> (\<exists>ws. writes (uploadHex (Some '':0280000001'') link_up) = writes link_up @ ws @ [terminator]
            \<and> terminator \<notin> set ws)
   \<and> \<not> overrun (uploadSrec (Some ''S1058000AA'') link_up)
   \<and> (\<exists>ws. writes (uploadSrec (Some ''S1058000AA'') link_up) = writes link_up @ ws @ [terminator]
            \<and> terminator \<notin> set ws)
   \<and> writes (uploadHex (Some '':0280000001'') link_up) = [terminator]
   \<and> writes (uploadHex (Some ('':02800000010279'' @ [NL] @ '':00000001FF'' @ [NL])) link_up)
       = [''S206008000010276'' @ [CR], terminator]
   \<and> writes (uploadHex (Some ('':02800000010279'' @ [NL] @ '':02800200030473'' @ [NL]))
         (link_up\<lparr>esc := [True]\<rparr>))
       = [''S206008000010276'' @ [CR], terminator]
   \<and> writes (uploadSrec (Some ''S1058000AA'') link_up) = [''S206008000AACF'' @ [CR], terminator]
   \<and> writes (uploadSrec (Some (''S1058000010277'' @ [NL] @ ''S9030000FC'' @ [NL])) link_up)
       = [''S206008000010276'' @ [CR], terminator]
   \<and> writes (uploadSrec (Some (''S1058000010277'' @ [NL] @ ''S105800203046F'' @ [NL]))
         (link_up\<lparr>esc := [True]\<rparr>))
       = [''S206008000010276'' @ [CR], terminator]"
proof -
  have h: "connected link_up"
    by (simp add: link_up_def)
  have o: "\<not> overrun (uploadHex (Some '':0280000001'') link_up)"
    "\<not> overrun (uploadSrec (Some ''S1058000AA'') link_up)"
    by (simp_all add: run cong: let_weak_cong)
  have e: "writes (uploadHex (Some '':0280000001'') link_up) = [terminator]"
    "writes (uploadHex (Some ('':02800000010279'' @ [NL] @ '':00000001FF'' @ [NL])) link_up)
       = [''S206008000010276'' @ [CR], terminator]"
    "writes (uploadHex (Some ('':02800000010279'' @ [NL] @ '':02800200030473'' @ [NL]))
         (link_up\<lparr>esc := [True]\<rparr>))
       = [''S206008000010276'' @ [CR], terminator]"
    "writes (uploadSrec (Some ''S1058000AA'') link_up) = [''S206008000AACF'' @ [CR], terminator]"
    "writes (uploadSrec (Some (''S1058000010277'' @ [NL] @ ''S9030000FC'' @ [NL])) link_up)
       = [''S206008000010276'' @ [CR], terminator]"
    "writes (uploadSrec (Some (''S1058000010277'' @ [NL] @ ''S105800203046F'' @ [NL]))
         (link_up\<lparr>esc := [True]\<rparr>))
       = [''S206008000010276'' @ [CR], terminator]"
    by (simp_all add: run terminator_def cong: let_weak_cong)
  from C3_terminator [OF h, of "'':0280000001''"] o(1)
  have 1: "\<exists>ws. writes (uploadHex (Some '':0280000001'') link_up) = writes link_up @ ws @ [terminator]
            \<and> terminator \<notin> set ws"
    by blast
  from C3_terminator [OF h, of "''S1058000AA''"] o(2)
  have 2: "\<exists>ws. writes (uploadSrec (Some ''S1058000AA'') link_up) = writes link_up @ ws @ [terminator]
            \<and> terminator \<notin> set ws"
    by blast
  from h o 1 2 e show ?thesis
    by blast
qed

text \<open>
  Claim C1 fails on the code. A type-04 record with address field \<open>0x0012\<close> is followed
  by a data record at \<open>0x8000\<close>: \<^verbatim>\<open>uploadHex\<close> sets \<open>segment\<close> back to 0 at the start of
  every record, so the load record carries the high address byte \<open>00\<close>, not \<open>12\<close>.
\<close>

theorem C1_segment_lost:
  "writes (uploadHex (Some ('':02001204000100'' @ [NL] @ '':02800000010279'' @ [NL])) link_up)
     = [''S206008000010276'' @ [CR], ''S804000000FB'' @ [CR]]"
  by (simp add: run cong: let_weak_cong)

text \<open>
  Claim C2 fails on the code. An S-record file that ends inside the data of a record:
  \<^verbatim>\<open>uploadSrec\<close> reports the error, leaves only its data loop, and still sends the
  record assembled so far. \<^verbatim>\<open>uploadHex\<close> sends nothing for the same file contents in
  HEX form. Digits that are not hexadecimal are no error in either: the value read last
  is used again.
\<close>

theorem C2_partial_record_sent:
  "trace (uploadSrec (Some ''S1058000AA'') link_up)
     = [Append ([NL] @ ''>> Uploading Program, ESC to cancel.'' @ [NL]),
        Message ''Error'' (''Error reading file.'' @ [NL]),
        Write (''S2060080'' @ ''00AA'' @ ''CF'' @ [CR]),
        Append [],
        Write (''S804000000FB'' @ [CR]),
        SetAddress 0x8000]
   \<and> trace (uploadHex (Some '':02800000AA'') link_up)
     = [Append ([NL] @ ''>> Uploading Program, ESC to cancel.'' @ [NL]),
        Message ''Error'' (''Error reading file.'' @ [NL]),
        Write (''S804000000FB'' @ [CR]),
        SetAddress 0x8000]
   \<and> trace (uploadHex (Some ('':02800000AAZZ'' @ [NL])) link_up)
     = [Append ([NL] @ ''>> Uploading Program, ESC to cancel.'' @ [NL]),
        Write (''S2060080'' @ ''00AA'' @ ''AA'' @ ''25'' @ [CR]),
        Append [],
        Write (''S804000000FB'' @ [CR]),
        SetAddress 0x8000]"
  by (simp add: run cong: let_weak_cong)

subsection \<open>Upload engine: records read digit by digit\<close>

lemma isxdigit_not_space: "isxdigit c \<Longrightarrow> \<not> isspace c"
  by (auto simp: isxdigit_def isspace_def Let_def)

lemma isxdigit_plain:
  "isxdigit c \<Longrightarrow> c \<noteq> CHR ''-'' \<and> c \<noteq> CHR ''+'' \<and> c \<noteq> CHR ''x'' \<and> c \<noteq> CHR ''X''"
  by (auto simp: isxdigit_def Let_def)

lemma fscanfX_plain:
  assumes "inp \<noteq> []" "\<not> isspace (hd inp)" "hd inp \<noteq> CHR ''-''" "hd inp \<noteq> CHR ''+''"
    "\<not> (w \<noteq> 0 \<and> take 1 inp = ''0'' \<and> w - 1 \<noteq> 0
                  \<and> (take 1 (tl inp) = ''x'' \<or> take 1 (tl inp) = ''X''))"
  shows "fscanfX w inp v =
          (if takeWhile isxdigit (take w inp) = [] then (0, v, inp)
           else (1, xval 0 (takeWhile isxdigit (take w inp)),
                 drop (length (takeWhile isxdigit (take w inp))) inp))"
proof -
  from assms(1,2) have i: "dropWhile isspace inp = inp"
    by (cases inp) simp_all
  show ?thesis
    unfolding fscanfX_def Let_def i
    using assms by (simp only: if_False simp_thms)
qed

lemma fscanfX_xdigits:
  assumes "xdigits w ds" and "0 < w"
  shows "fscanfX w (ds @ rest) v = (1, xval 0 ds, rest)"
proof -
  from assms obtain d ds' where ds: "ds = d # ds'"
    by (cases ds) (auto simp: xdigits_def)
  with assms have d: "\<not> isspace d" "d \<noteq> CHR ''-''" "d \<noteq> CHR ''+''"
    using isxdigit_plain [of d] by (simp_all add: xdigits_def isxdigit_not_space)
  from assms have a: "takeWhile isxdigit ds = ds"
    by (simp add: xdigits_def list_all_iff takeWhile_eq_all_conv)
  from assms have t: "take w (ds @ rest) = ds"
    by (simp add: xdigits_def)
  have 1: "ds @ rest \<noteq> []" "\<not> isspace (hd (ds @ rest))" "hd (ds @ rest) \<noteq> CHR ''-''"
    "hd (ds @ rest) \<noteq> CHR ''+''"
    using ds d by simp_all
  have x: "take 1 (tl (ds @ rest)) \<noteq> ''x'' \<and> take 1 (tl (ds @ rest)) \<noteq> ''X''" if "w - 1 \<noteq> 0"
  proof -
    from that assms ds obtain e ds'' where "ds' = e # ds''"
      by (cases ds') (auto simp: xdigits_def)
    with assms ds isxdigit_plain [of e] show ?thesis
      by (simp add: xdigits_def)
  qed
  then have np: "\<not> (w \<noteq> 0 \<and> take 1 (ds @ rest) = ''0'' \<and> w - 1 \<noteq> 0
                  \<and> (take 1 (tl (ds @ rest)) = ''x'' \<or> take 1 (tl (ds @ rest)) = ''X''))"
    by blast
  have "fscanfX w (ds @ rest) v =
          (if takeWhile isxdigit (take w (ds @ rest)) = [] then (0, v, ds @ rest)
           else (1, xval 0 (takeWhile isxdigit (take w (ds @ rest))),
                 drop (length (takeWhile isxdigit (take w (ds @ rest)))) (ds @ rest)))"
    using 1 np by (rule fscanfX_plain)
  then show ?thesis
    unfolding t a using ds by simp
qed

lemma xdigit_val_range: "isxdigit c \<Longrightarrow> 0 \<le> xdigit_val c \<and> xdigit_val c \<le> 15"
proof -
  assume a: "isxdigit c"
  have "int (of_char c) = (of_char c :: int)" by (rule of_nat_of_char)
  with a show ?thesis
    by (auto simp: isxdigit_def xdigit_val_def Let_def)
qed

lemma xval_bounds:
  "list_all isxdigit ds \<Longrightarrow> 0 \<le> acc \<Longrightarrow>
     0 \<le> xval acc ds \<and> xval acc ds < (acc + 1) * 16 ^ length ds"
proof (induction ds arbitrary: acc)
  case Nil
  then show ?case by simp
next
  case (Cons c cs)
  then have r: "0 \<le> xdigit_val c" "xdigit_val c \<le> 15"
    using xdigit_val_range [of c] by simp_all
  with Cons.prems have p: "0 \<le> 16 * acc + xdigit_val c" by simp
  from Cons.prems have "list_all isxdigit cs" by simp
  from Cons.IH [OF this p]
  have i: "0 \<le> xval (16 * acc + xdigit_val c) cs"
    "xval (16 * acc + xdigit_val c) cs < (16 * acc + xdigit_val c + 1) * 16 ^ length cs"
    by simp_all
  have "(16 * acc + xdigit_val c + 1) * 16 ^ length cs \<le> (16 * acc + 16) * 16 ^ length cs"
    using r by (intro mult_right_mono) simp_all
  also have "\<dots> = (acc + 1) * 16 ^ length (c # cs)"
    by (simp add: algebra_simps)
  finally have le: "(16 * acc + xdigit_val c + 1) * 16 ^ length cs
                      \<le> (acc + 1) * 16 ^ length (c # cs)" .
  from i(2) le have "xval (16 * acc + xdigit_val c) cs < (acc + 1) * 16 ^ length (c # cs)"
    by (rule less_le_trans)
  with i(1) show ?case by simp
qed

lemma xdigits_2_range: "xdigits 2 ds \<Longrightarrow> 0 \<le> xval 0 ds \<and> xval 0 ds \<le> 0xFF"
  using xval_bounds [of ds 0] by (simp add: xdigits_def)

lemma xdigits_4_range: "xdigits 4 ds \<Longrightarrow> 0 \<le> xval 0 ds \<and> xval 0 ds \<le> 0xFFFF"
  using xval_bounds [of ds 0] by (simp add: xdigits_def)

lemma xdigits_6_range: "xdigits 6 ds \<Longrightarrow> 0 \<le> xval 0 ds \<and> xval 0 ds \<le> 0xFFFFFF"
  using xval_bounds [of ds 0] by (simp add: xdigits_def)

lemma fmtX_2_xval [simp]: "xdigits 2 ds \<Longrightarrow> length (fmtX 2 (xval 0 ds)) = 2"
  using xdigits_2_range [of ds] by (simp add: fmtX_2_length)

lemma skip_line_junk:
  "NL \<notin> set junk \<Longrightarrow> length junk < n \<Longrightarrow> skip_line n (junk @ NL # rest) = rest"
proof (induction junk arbitrary: n)
  case Nil
  then show ?case by (cases n) simp_all
next
  case (Cons c cs)
  then show ?case by (cases n) auto
qed

lemma skip_line_long:
  "NL \<notin> set junk \<Longrightarrow> length junk = n \<Longrightarrow> skip_line n (junk @ rest) = rest"
proof (induction junk arbitrary: n)
  case Nil
  then show ?case by simp
next
  case (Cons c cs)
  then show ?case by (cases n) auto
qed

lemma scan_value_xdigits:
  "xdigits 2 b \<Longrightarrow> fp f = b @ rest \<Longrightarrow> scan_value f = (1, f\<lparr>fp := rest, val := xval 0 b\<rparr>)"
  by (simp add: scan_value_def fscanfX_xdigits)

lemma scan_count_xdigits:
  "xdigits 2 b \<Longrightarrow> fp f = b @ rest \<Longrightarrow> scan_count f = (1, f\<lparr>fp := rest, count := xval 0 b\<rparr>)"
  by (simp add: scan_count_def fscanfX_xdigits)

lemma scan_code_xdigits:
  "xdigits 2 b \<Longrightarrow> fp f = b @ rest \<Longrightarrow> scan_code f = (1, f\<lparr>fp := rest, code := xval 0 b\<rparr>)"
  by (simp add: scan_code_def fscanfX_xdigits)

lemma scan_address_xdigits:
  "xdigits w b \<Longrightarrow> 0 < w \<Longrightarrow> fp f = b @ rest \<Longrightarrow>
     scan_address w f = (1, f\<lparr>fp := rest, address := xval 0 b\<rparr>)"
  by (simp add: scan_address_def fscanfX_xdigits)

lemma sprintf_s_append:
  "length (sbuf f) = i \<Longrightarrow> i + length txt + 1 \<le> 256 \<Longrightarrow>
     sprintf_s i txt f = f\<lparr>sbuf := sbuf f @ txt\<rparr>"
  by (simp add: sprintf_s_def sprintf_at_def)

lemma hex_data_bytes:
  assumes "list_all (xdigits 2) bs" and "fp f = concat bs @ rest"
    and "length (sbuf f) = i" and "i + 2 * length bs + 1 \<le> 256"
  shows "hex_data (length bs) i c f =
           (False, i + 2 * length bs, c + sum_list (map (xval 0) bs),
            f\<lparr>fp := rest, val := foldl (\<lambda>v b. xval 0 b) (val f) bs,
              sbuf := sbuf f @ concat (map (\<lambda>b. fmtX 2 (xval 0 b)) bs)\<rparr>)"
  using assms
proof (induction bs arbitrary: f i c)
  case Nil
  then show ?case by simp
next
  case (Cons b bs)
  define f1 where "f1 = f\<lparr>fp := concat bs @ rest, val := xval 0 b\<rparr>"
  define f2 where "f2 = f1\<lparr>sbuf := sbuf f1 @ fmtX 2 (xval 0 b)\<rparr>"
  from Cons.prems have b: "xdigits 2 b" and bs: "list_all (xdigits 2) bs"
    by simp_all
  from Cons.prems have sv: "scan_value f = (1, f1)"
    by (simp add: f1_def scan_value_xdigits [OF b])
  have sp: "sprintf_s i (fmtX 2 (val f1)) f1 = f2"
    using Cons.prems b by (simp add: f1_def f2_def sprintf_s_append)
  have "hex_data (length bs) (i + 2) (c + xval 0 b) f2 =
           (False, i + 2 + 2 * length bs, c + xval 0 b + sum_list (map (xval 0) bs),
            f2\<lparr>fp := rest, val := foldl (\<lambda>v b. xval 0 b) (val f2) bs,
              sbuf := sbuf f2 @ concat (map (\<lambda>b. fmtX 2 (xval 0 b)) bs)\<rparr>)"
    using Cons.prems b by (intro Cons.IH [OF bs]) (simp_all add: f2_def f1_def)
  then show ?case
    using sv sp by (simp add: EOF_def f2_def f1_def)
qed

lemma srec_data_bytes:
  assumes "list_all (xdigits 2) bs" and "fp f = concat bs @ rest"
    and "length (sbuf f) = i" and "i + 2 * length bs + 1 \<le> 256"
  shows "srec_data (length bs) i c f =
           (i + 2 * length bs, c + sum_list (map (xval 0) bs),
            f\<lparr>fp := rest, val := foldl (\<lambda>v b. xval 0 b) (val f) bs,
              sbuf := sbuf f @ concat (map (\<lambda>b. fmtX 2 (xval 0 b)) bs)\<rparr>)"
  using assms
proof (induction bs arbitrary: f i c)
  case Nil
  then show ?case by simp
next
  case (Cons b bs)
  define f1 where "f1 = f\<lparr>fp := concat bs @ rest, val := xval 0 b\<rparr>"
  define f2 where "f2 = f1\<lparr>sbuf := sbuf f1 @ fmtX 2 (xval 0 b)\<rparr>"
  from Cons.prems have b: "xdigits 2 b" and bs: "list_all (xdigits 2) bs"
    by simp_all
  from Cons.prems have sv: "scan_value f = (1, f1)"
    by (simp add: f1_def scan_value_xdigits [OF b])
  have sp: "sprintf_s i (fmtX 2 (val f1)) f1 = f2"
    using Cons.prems b by (simp add: f1_def f2_def sprintf_s_append)
  have "srec_data (length bs) (i + 2) (c + xval 0 b) f2 =
           (i + 2 + 2 * length bs, c + xval 0 b + sum_list (map (xval 0) bs),
            f2\<lparr>fp := rest, val := foldl (\<lambda>v b. xval 0 b) (val f2) bs,
              sbuf := sbuf f2 @ concat (map (\<lambda>b. fmtX 2 (xval 0 b)) bs)\<rparr>)"
    using Cons.prems b by (intro Cons.IH [OF bs]) (simp_all add: f2_def f1_def)
  then show ?case
    using sv sp by (simp add: EOF_def f2_def f1_def)
qed

text \<open>
  Data of any length: all bytes are read, and the write position advances by two
  characters for each, whether they still fit into the line buffer or not.
\<close>

lemma hex_data_scan:
  assumes "list_all (xdigits 2) bs" and "fp f = concat bs @ rest"
  shows "\<exists>c' g. hex_data (length bs) i c f = (False, i + 2 * length bs, c', g)"
  using assms
proof (induction bs arbitrary: f i c)
  case Nil
  then show ?case by simp
next
  case (Cons b bs)
  define f1 where "f1 = f\<lparr>fp := concat bs @ rest, val := xval 0 b\<rparr>"
  from Cons.prems have b: "xdigits 2 b" and bs: "list_all (xdigits 2) bs"
    by simp_all
  from Cons.prems have sv: "scan_value f = (1, f1)"
    by (simp add: f1_def scan_value_xdigits [OF b])
  have "fp (sprintf_s i (fmtX 2 (val f1)) f1) = concat bs @ rest"
    by (simp add: f1_def)
  from Cons.IH [OF bs this, of "i + 2" "c + val f1"]
  obtain c' g where "hex_data (length bs) (i + 2) (c + val f1) (sprintf_s i (fmtX 2 (val f1)) f1)
                       = (False, i + 2 + 2 * length bs, c', g)"
    by blast
  then show ?case
    using sv by (simp add: EOF_def)
qed

lemma srec_data_scan:
  assumes "list_all (xdigits 2) bs" and "fp f = concat bs @ rest"
  shows "\<exists>c' g. srec_data (length bs) i c f = (i + 2 * length bs, c', g)"
  using assms
proof (induction bs arbitrary: f i c)
  case Nil
  then show ?case by simp
next
  case (Cons b bs)
  define f1 where "f1 = f\<lparr>fp := concat bs @ rest, val := xval 0 b\<rparr>"
  from Cons.prems have b: "xdigits 2 b" and bs: "list_all (xdigits 2) bs"
    by simp_all
  from Cons.prems have sv: "scan_value f = (1, f1)"
    by (simp add: f1_def scan_value_xdigits [OF b])
  have "fp (sprintf_s i (fmtX 2 (val f1)) f1) = concat bs @ rest"
    by (simp add: f1_def)
  from Cons.IH [OF bs this, of "i + 2" "c + val f1"]
  obtain c' g where "srec_data (length bs) (i + 2) (c + val f1) (sprintf_s i (fmtX 2 (val f1)) f1)
                       = (i + 2 + 2 * length bs, c', g)"
    by blast
  then show ?case
    using sv by (simp add: EOF_def)
qed

lemma checksum_byte: "(0xFF - ((x::int) AND 0xFF)) AND 0xFF = 0xFF - (x AND 0xFF)"
proof -
  have "0 \<le> x mod 256" "x mod 256 < 256" by simp_all
  then show ?thesis by (simp add: and_255_mod)
qed

lemma fold_low_bits:
  "((l::int) + d + lo + s) AND 0xFF = (l + (d AND 0xFF) + lo + s) AND 0xFF"
proof -
  have "(l + d + lo + s) mod 256 = (d + (l + lo + s)) mod 256"
    by (simp add: ac_simps)
  also have "\<dots> = (d mod 256 + (l + lo + s)) mod 256"
    by (simp only: mod_add_left_eq)
  also have "\<dots> = (l + d mod 256 + lo + s) mod 256"
    by (simp add: ac_simps)
  finally show ?thesis
    by (simp only: and_255_mod)
qed

lemma xdigits_00 [simp]: "xdigits 2 ''00''" "xval 0 ''00'' = 0"
  by (simp_all add: xdigits_def isxdigit_def xdigit_val_def)

lemma fmtX_2_zero [simp]: "fmtX 2 0 = ''00''"
  by (simp add: run)

lemma length_and_byte [simp]: "length (fmtX 2 (x AND 0xFF)) = 2"
  by (simp add: fmtX_2_length and_255_mod)

lemma NL_notin_concat_fmtX: "NL \<notin> set (concat (map (\<lambda>b. fmtX w (g b)) bs))"
  by (induction bs) (simp_all add: NL_notin_fmtX)

lemma nl_to_cr_concat_fmtX [simp]:
  "map nl_to_cr (concat (map (\<lambda>b. fmtX w (g b)) bs)) = concat (map (\<lambda>b. fmtX w (g b)) bs)"
  by (rule map_nl_to_cr_id) (rule NL_notin_concat_fmtX)

lemma nl_to_cr_NL [simp]: "nl_to_cr NL = CR"
  by (simp add: nl_to_cr_def)

lemma length_data_text:
  "list_all (xdigits 2) bs \<Longrightarrow> length (concat (map (\<lambda>b. fmtX 2 (xval 0 b)) bs)) = 2 * length bs"
  by (induction bs) simp_all

text \<open>What the send stage does to a frame whose data bytes are all there.\<close>

lemma send_record_exact:
  assumes "length (sbuf f) = i" and "i + 4 \<le> 256"
  shows "fp (send_record i c f) = fp f"
    and "start_address (send_record i c f) = start_address f"
    and "tm (send_record i c f)
           = update_terminal (sendString (sbuf f @ fmtX 2 (0xFF - (c AND 0xFF)) @ [NL]) (tm f))"
proof -
  have l: "length (fmtX 2 (0xFF - (c AND 0xFF))) = 2"
    using checksum_byte [of c] length_and_byte [of "0xFF - (c AND 0xFF)"] by simp
  have "sprintf_s i (fmtX 2 (0xFF - (c AND 0xFF)) @ [NL]) f
          = f\<lparr>sbuf := sbuf f @ fmtX 2 (0xFF - (c AND 0xFF)) @ [NL]\<rparr>"
    using assms l by (intro sprintf_s_append) simp_all
  then show "fp (send_record i c f) = fp f"
    and "start_address (send_record i c f) = start_address f"
    and "tm (send_record i c f)
           = update_terminal (sendString (sbuf f @ fmtX 2 (0xFF - (c AND 0xFF)) @ [NL]) (tm f))"
    by (simp_all add: send_record_def Let_def)
qed

text \<open>
  The checksum and the line feed of a record of more than 121 data bytes are written
  behind the end of the line buffer.
\<close>

lemma send_record_long: "252 < i \<Longrightarrow> overrun (tm (send_record i c f))"
proof -
  have l: "length (fmtX 2 (0xFF - (c AND 0xFF))) = 2"
    using checksum_byte [of c] length_and_byte [of "0xFF - (c AND 0xFF)"] by simp
  assume "252 < i"
  with l show ?thesis
    by (simp add: send_record_def Let_def)
qed

lemma hex_send_exact:
  assumes "list_all (xdigits 2) bs" and "bs \<noteq> []" and "length bs \<le> 121"
    and "count f = int (length bs)" and "segment f = 0"
    and "0 \<le> address f" and "address f \<le> 0xFFFF"
    and "fp f = concat bs @ rest"
  shows "\<exists>g. hex_send f = next_record g \<and> fp g = rest \<and> start_address g = start_address f
           \<and> tm g = update_terminal
                (sendString (''S2'' @ fmtX 2 (count f + 4) @ ''00''
                   @ fmtX 2 (drop_bit 8 (address f) AND 0xFF) @ fmtX 2 (address f AND 0xFF)
                   @ concat (map (\<lambda>b. fmtX 2 (xval 0 b)) bs)
                   @ fmtX 2 (0xFF - ((checksum0 f + sum_list (map (xval 0) bs)) AND 0xFF))
                   @ [NL]) (tm f))"
proof -
  define hdr where "hdr = ''S2'' @ fmtX 2 (count f + 4) @ ''00''
                   @ fmtX 2 (drop_bit 8 (address f) AND 0xFF) @ fmtX 2 (address f AND 0xFF)"
  have lc: "length (fmtX 2 (count f + 4)) = 2"
    using assms by (intro fmtX_2_length) simp_all
  then have lh: "length hdr = 10"
    by (simp add: hdr_def)
  have h: "hex_header f = f\<lparr>sbuf := hdr\<rparr>"
    using assms(5) lh by (simp add: hex_header_def sprintf_s_def sprintf_at_def hdr_def)
  define f' where "f' = f\<lparr>sbuf := hdr\<rparr>"
  have d: "hex_data (length bs) 10 (checksum0 f') f' =
           (False, 10 + 2 * length bs, checksum0 f' + sum_list (map (xval 0) bs),
            f'\<lparr>fp := rest, val := foldl (\<lambda>v b. xval 0 b) (val f') bs,
              sbuf := sbuf f' @ concat (map (\<lambda>b. fmtX 2 (xval 0 b)) bs)\<rparr>)"
    using assms lh by (intro hex_data_bytes) (simp_all add: f'_def)
  define g' where "g' = f'\<lparr>fp := rest, val := foldl (\<lambda>v b. xval 0 b) (val f') bs,
              sbuf := sbuf f' @ concat (map (\<lambda>b. fmtX 2 (xval 0 b)) bs)\<rparr>"
  define g where "g = send_record (10 + 2 * length bs) (checksum0 f' + sum_list (map (xval 0) bs)) g'"
  have c0: "checksum0 f' = checksum0 f" "count f' = count f"
    by (simp_all add: f'_def checksum0_def)
  have s: "hex_send f = next_record g"
    using d assms(4) by (simp add: hex_send_def h Let_def f'_def [symmetric] c0 g_def g'_def)
  have lg: "length (sbuf g') = 10 + 2 * length bs"
    using assms(1) lh by (simp add: g'_def f'_def length_data_text)
  have b: "10 + 2 * length bs + 4 \<le> 256"
    using assms(3) by simp
  have p: "fp g' = rest" "start_address g' = start_address f" "tm g' = tm f"
    "sbuf g' = hdr @ concat (map (\<lambda>b. fmtX 2 (xval 0 b)) bs)"
    by (simp_all add: g'_def f'_def)
  have "fp g = rest"
    unfolding g_def using send_record_exact(1) [OF lg b] p(1) by simp
  moreover have "start_address g = start_address f"
    unfolding g_def using send_record_exact(2) [OF lg b] p(2) by simp
  moreover have "tm g = update_terminal
                (sendString (hdr @ concat (map (\<lambda>b. fmtX 2 (xval 0 b)) bs)
                   @ fmtX 2 (0xFF - ((checksum0 f + sum_list (map (xval 0) bs)) AND 0xFF))
                   @ [NL]) (tm f))"
    unfolding g_def using send_record_exact(3) [OF lg b] p(3,4) c0(1) by simp
  ultimately show ?thesis
    using s unfolding hdr_def by (intro exI [of _ g]) simp
qed

lemma writes_esc [simp]: "writes (t\<lparr>esc := e\<rparr>) = writes t"
  by (simp add: writes_def)

lemma next_record_tm:
  "writes (tm (frame_of (next_record g))) = writes (tm g)"
  "overrun (tm (frame_of (next_record g))) = overrun (tm g)"
  "connected (tm (frame_of (next_record g))) = connected (tm g)"
  "start_address (frame_of (next_record g)) = start_address g"
  by (simp_all add: next_record_def Let_def frame_of_def Fl_check_def split: list.splits)

lemma count_hex_header [simp]: "count (hex_header f) = count f"
  by (simp add: hex_header_def sprintf_s_def)

lemma count_srec_header [simp]: "count (srec_header f) = count f"
  by (simp add: srec_header_def sprintf_s_def)

lemma hex_send_long:
  assumes "list_all (xdigits 2) bs" and "121 < length bs"
    and "count f = int (length bs)" and "fp f = concat bs @ rest"
  shows "overrun (tm (frame_of (hex_send f)))"
proof -
  have "fp (hex_header f) = concat bs @ rest"
    using assms(4) by simp
  from hex_data_scan [OF assms(1) this, of 10 "checksum0 (hex_header f)"]
  obtain c' g where "hex_data (length bs) 10 (checksum0 (hex_header f)) (hex_header f)
                       = (False, 10 + 2 * length bs, c', g)"
    by blast
  then have "hex_send f = next_record (send_record (10 + 2 * length bs) c' g)"
    using assms(3) by (simp add: hex_send_def Let_def)
  moreover have "overrun (tm (send_record (10 + 2 * length bs) c' g))"
    using assms(2) by (intro send_record_long) simp
  ultimately show ?thesis
    by (simp add: next_record_tm)
qed

subsection \<open>Upload engine: HEX records\<close>

lemma nl_to_cr_chars [simp]:
  "nl_to_cr CHR ''S'' = CHR ''S''" "nl_to_cr CHR ''2'' = CHR ''2''"
  by (simp_all add: nl_to_cr_def NL_def)

lemma wire_load_record:
  "map nl_to_cr (''S2'' @ fmtX 2 (int (length bs) + 4) @ fmtX 2 hi
       @ fmtX 2 (drop_bit 8 a AND 0xFF) @ fmtX 2 (a AND 0xFF)
       @ concat (map (\<lambda>b. fmtX 2 (xval 0 b)) bs)
       @ fmtX 2 (0xFF - ((0 + (int (length bs) + 4) + drop_bit 8 a + (a AND 0xFF)
                           + sum_list (map (xval 0) bs)) AND 0xFF))
       @ [NL])
   = load_record hi a (map (xval 0) bs)"
proof -
  have "(0 + (int (length bs) + 4) + drop_bit 8 a + (a AND 0xFF) + sum_list (map (xval 0) bs)) AND 0xFF
        = (int (length bs) + 4 + (drop_bit 8 a AND 0xFF) + (a AND 0xFF) + sum_list (map (xval 0) bs)) AND 0xFF"
    using fold_low_bits [of "int (length bs) + 4" "drop_bit 8 a" "a AND 0xFF" "sum_list (map (xval 0) bs)"]
    by simp
  then show ?thesis
    by (simp add: load_record_def checksum_byte comp_def)
qed

lemma next_record_line:
  assumes "fp g = junk @ NL # rest" and "NL \<notin> set junk" and "length junk < 256"
  shows "\<exists>g'. next_record g = (if cancelled (tm g) \<or> (esc (tm g) \<noteq> [] \<and> hd (esc (tm g)))
                                 then Break g' else Continue g')
           \<and> fp g' = rest \<and> start_address g' = start_address g
           \<and> connected (tm g') = connected (tm g) \<and> \<not> cancelled (tm g')
           \<and> esc (tm g') = tl (esc (tm g)) \<and> writes (tm g') = writes (tm g)
           \<and> overrun (tm g') = overrun (tm g)"
proof -
  have "skip_line 256 (fp g) = rest"
    using assms by (simp add: skip_line_junk)
  then show ?thesis
    by (cases "esc (tm g)") (auto simp: next_record_def Let_def Fl_check_def writes_def)
qed

text \<open>
  The head of a record of a HEX file, after the colon: count, address and type are
  read, and the type selects what is done with the rest of the line.
\<close>

lemma hex_record_fields:
  assumes "xdigits 2 cnt" and "xdigits 4 adr" and "xdigits 2 typ" and "xval 0 cnt \<noteq> 0"
    and "fp f = cnt @ adr @ typ @ rest"
  shows "\<exists>f3. hex_record f =
                 (if xval 0 typ = 4 then next_record (f3\<lparr>segment := xval 0 adr\<rparr>)
                  else if xval 0 typ = 0 then hex_send f3 else next_record f3)
           \<and> fp f3 = rest \<and> count f3 = xval 0 cnt \<and> segment f3 = 0 \<and> address f3 = xval 0 adr
           \<and> tm f3 = tm f
           \<and> start_address f3 = (if start_address f = - 1 then xval 0 adr else start_address f)"
proof -
  define f1 where "f1 = f\<lparr>segment := 0, fp := adr @ typ @ rest, count := xval 0 cnt\<rparr>"
  define f2 where "f2 = f1\<lparr>fp := typ @ rest, address := xval 0 adr\<rparr>"
  define f2' where "f2' = (if start_address f2 = - 1 then f2\<lparr>start_address := address f2\<rparr> else f2)"
  define f3 where "f3 = f2'\<lparr>fp := rest, code := xval 0 typ\<rparr>"
  have s1: "scan_count (f\<lparr>segment := 0\<rparr>) = (1, f1)"
    using scan_count_xdigits [OF assms(1), of "f\<lparr>segment := 0\<rparr>" "adr @ typ @ rest"] assms(5)
    by (simp add: f1_def)
  have s2: "scan_address 4 f1 = (1, f2)"
    using scan_address_xdigits [OF assms(2), of f1 "typ @ rest"]
    by (simp add: f1_def f2_def)
  have s3: "scan_code f2' = (1, f3)"
    unfolding f3_def by (rule scan_code_xdigits [OF assms(3)]) (simp add: f2'_def f2_def)
  have c: "count f1 \<noteq> 0"
    using assms(4) by (simp add: f1_def)
  have a: "address f3 = xval 0 adr" "code f3 = xval 0 typ"
    by (simp_all add: f3_def f2'_def f2_def)
  have "hex_record f = (if code f3 = 4 then next_record (f3\<lparr>segment := address f3\<rparr>)
                        else if code f3 = 0 then hex_send f3 else next_record f3)"
    using s1 s2 s3 c
    by (simp add: hex_record_def Let_def f2'_def [symmetric] EOF_def)
  then have r: "hex_record f =
                 (if xval 0 typ = 4 then next_record (f3\<lparr>segment := xval 0 adr\<rparr>)
                  else if xval 0 typ = 0 then hex_send f3 else next_record f3)"
    by (simp only: a)
  have p: "fp f3 = rest" "count f3 = xval 0 cnt" "segment f3 = 0" "tm f3 = tm f"
    "start_address f3 = (if start_address f = - 1 then xval 0 adr else start_address f)"
    by (simp_all add: f3_def f2'_def f2_def f1_def)
  from r p a(1) show ?thesis
    by blast
qed

lemma hex_record_data:
  assumes "hex_data_line cnt adr bs" and "length bs \<le> 121"
    and "xdigits 2 typ" and "xval 0 typ = 0"
    and "fp f = cnt @ adr @ typ @ concat bs @ rest"
  shows "\<exists>g. hex_record f = next_record g \<and> fp g = rest
           \<and> start_address g = (if start_address f = - 1 then xval 0 adr else start_address f)
           \<and> tm g = update_terminal
                (sendString (''S2'' @ fmtX 2 (int (length bs) + 4) @ fmtX 2 0
                   @ fmtX 2 (drop_bit 8 (xval 0 adr) AND 0xFF) @ fmtX 2 (xval 0 adr AND 0xFF)
                   @ concat (map (\<lambda>b. fmtX 2 (xval 0 b)) bs)
                   @ fmtX 2 (0xFF - ((0 + (int (length bs) + 4) + drop_bit 8 (xval 0 adr)
                        + (xval 0 adr AND 0xFF) + sum_list (map (xval 0) bs)) AND 0xFF))
                   @ [NL]) (tm f))"
proof -
  from assms(1) have w: "xdigits 2 cnt" "xdigits 4 adr" "list_all (xdigits 2) bs"
    "xval 0 cnt = int (length bs)" "bs \<noteq> []"
    by (simp_all add: hex_data_line_def)
  then have n: "xval 0 cnt \<noteq> 0"
    by simp
  from hex_record_fields [OF w(1) w(2) assms(3) n assms(5)] assms(4) w(4)
  obtain f3 where r: "hex_record f = hex_send f3"
    and p: "fp f3 = concat bs @ rest" "count f3 = int (length bs)" "segment f3 = 0"
      "address f3 = xval 0 adr" "tm f3 = tm f"
      "start_address f3 = (if start_address f = - 1 then xval 0 adr else start_address f)"
    by auto
  have a: "0 \<le> xval 0 adr" "xval 0 adr \<le> 0xFFFF"
    using xdigits_4_range [OF w(2)] by simp_all
  have c0: "checksum0 f3 = 0 + (int (length bs) + 4) + drop_bit 8 (xval 0 adr) + (xval 0 adr AND 0xFF)"
    by (simp add: checksum0_def p)
  from hex_send_exact [OF w(3) w(5) assms(2) p(2) p(3) _ _ p(1)] a p(4)
  obtain g where "hex_send f3 = next_record g" "fp g = rest" "start_address g = start_address f3"
    "tm g = update_terminal
                (sendString (''S2'' @ fmtX 2 (count f3 + 4) @ ''00''
                   @ fmtX 2 (drop_bit 8 (address f3) AND 0xFF) @ fmtX 2 (address f3 AND 0xFF)
                   @ concat (map (\<lambda>b. fmtX 2 (xval 0 b)) bs)
                   @ fmtX 2 (0xFF - ((checksum0 f3 + sum_list (map (xval 0) bs)) AND 0xFF))
                   @ [NL]) (tm f3))"
    by auto
  then show ?thesis
    using r p c0 by (intro exI [of _ g]) simp
qed

lemma hex_record_long:
  assumes "hex_data_line cnt adr bs" and "121 < length bs"
    and "xdigits 2 typ" and "xval 0 typ = 0"
    and "fp f = cnt @ adr @ typ @ concat bs @ rest"
  shows "overrun (tm (frame_of (hex_record f)))"
proof -
  from assms(1) have w: "xdigits 2 cnt" "xdigits 4 adr" "list_all (xdigits 2) bs"
    "xval 0 cnt = int (length bs)" "bs \<noteq> []"
    by (simp_all add: hex_data_line_def)
  then have n: "xval 0 cnt \<noteq> 0"
    by simp
  from hex_record_fields [OF w(1) w(2) assms(3) n assms(5)] assms(4) w(4)
  obtain f3 where r: "hex_record f = hex_send f3"
    and p: "fp f3 = concat bs @ rest" "count f3 = int (length bs)"
    by auto
  from hex_send_long [OF w(3) assms(2) p(2) p(1)] r show ?thesis
    by simp
qed

text \<open>
  Claim C4 holds for a record of at most 121 data bytes and fails on the code beyond.
  For every data record of a HEX file (type \<open>00\<close>, with as many data bytes as its count
  says), on an open link: if the record has at most 121 data bytes, the iteration that
  reads it writes exactly the load record of the specification, whose checksum byte is
  \<open>(0xFF - ((len + 4 + addrHi + addrLo + sum of data) & 0xFF)) & 0xFF\<close>, with \<open>addrHi\<close> and
  \<open>addrLo\<close> the high and low byte of the offset, and the line buffer is not overrun. If
  the record has more than 121 data bytes (a HEX record may have 255), the load record
  does not fit into \<^verbatim>\<open>char s[256]\<close>: \<^verbatim>\<open>sprintf\<close> writes behind the end of the buffer,
  and what the C function sends is undefined.
\<close>

theorem C4_hex_checksum:
  assumes "hex_data_line cnt adr bs" and "connected (tm f)"
    and "fp f = '':'' @ cnt @ adr @ ''00'' @ concat bs @ rest"
  shows "(length bs \<le> 121 \<longrightarrow>
            writes (tm (frame_of (hex_step f)))
              = writes (tm f) @ [load_record 0 (xval 0 adr) (map (xval 0) bs)]
            \<and> overrun (tm (frame_of (hex_step f))) = overrun (tm f))
       \<and> (121 < length bs \<longrightarrow> overrun (tm (frame_of (hex_step f))))"
proof -
  have s: "hex_step f = hex_record (f\<lparr>fp := cnt @ adr @ ''00'' @ concat bs @ rest\<rparr>)"
    using assms(3) by (simp add: hex_step_def)
  have 1: "writes (tm (frame_of (hex_step f)))
              = writes (tm f) @ [load_record 0 (xval 0 adr) (map (xval 0) bs)]
            \<and> overrun (tm (frame_of (hex_step f))) = overrun (tm f)"
    if l: "length bs \<le> 121"
  proof -
    from hex_record_data [OF assms(1) l xdigits_00,
        of "f\<lparr>fp := cnt @ adr @ ''00'' @ concat bs @ rest\<rparr>" rest]
    obtain g where "hex_record (f\<lparr>fp := cnt @ adr @ ''00'' @ concat bs @ rest\<rparr>) = next_record g"
      and "tm g = update_terminal
                (sendString (''S2'' @ fmtX 2 (int (length bs) + 4) @ fmtX 2 0
                   @ fmtX 2 (drop_bit 8 (xval 0 adr) AND 0xFF) @ fmtX 2 (xval 0 adr AND 0xFF)
                   @ concat (map (\<lambda>b. fmtX 2 (xval 0 b)) bs)
                   @ fmtX 2 (0xFF - ((0 + (int (length bs) + 4) + drop_bit 8 (xval 0 adr)
                        + (xval 0 adr AND 0xFF) + sum_list (map (xval 0) bs)) AND 0xFF))
                   @ [NL]) (tm f))"
      by auto
    with s show ?thesis
      using assms(2) wire_load_record [of bs 0 "xval 0 adr"]
      by (simp add: next_record_tm writes_sendString)
  qed
  have 2: "overrun (tm (frame_of (hex_step f)))" if l: "121 < length bs"
    using hex_record_long [OF assms(1) l xdigits_00,
        of "f\<lparr>fp := cnt @ adr @ ''00'' @ concat bs @ rest\<rparr>" rest] s
    by simp
  from 1 2 show ?thesis by blast
qed

lemma xdigits_replicate_00: "list_all (xdigits 2) (replicate n ''00'')"
  by (simp add: list_all_iff)

text \<open>
  Claim C4 on the record at \<open>0x8000\<close> with the data bytes \<open>01 02\<close>: the length byte of
  the load record is \<open>06\<close> and its checksum \<open>76\<close>. And on a record of 131 data bytes
  (count \<open>83\<close>): the line buffer is overrun.
\<close>

theorem C4_hex_checksum_witness:
  "hex_data_line ''02'' ''8000'' [''01'', ''02'']
   \<and> connected (tm (new_frame ('':028000000102'' @ ''7B'' @ [NL]) link_up))
   \<and> writes (tm (frame_of (hex_step (new_frame ('':028000000102'' @ ''7B'' @ [NL]) link_up))))
       = [''S2'' @ ''06'' @ ''00'' @ ''8000'' @ ''0102'' @ ''76'' @ [CR]]
   \<and> \<not> overrun (tm (frame_of (hex_step (new_frame ('':028000000102'' @ ''7B'' @ [NL]) link_up))))
   \<and> hex_data_line ''83'' ''8000'' long_data \<and> length long_data = 131
   \<and> \<not> overrun (tm (new_frame ('':83800000'' @ concat long_data @ ''FD'' @ [NL]) link_up))
   \<and> overrun (tm (frame_of (hex_step
         (new_frame ('':83800000'' @ concat long_data @ ''FD'' @ [NL]) link_up))))"
proof -
  have h1: "hex_data_line ''02'' ''8000'' [''01'', ''02'']"
    by (simp add: hex_data_line_def xdigits_def isxdigit_def xdigit_val_def)
  have h2: "connected (tm (new_frame ('':028000000102'' @ ''7B'' @ [NL]) link_up))"
    by (simp add: new_frame_def link_up_def)
  have h3: "fp (new_frame ('':028000000102'' @ ''7B'' @ [NL]) link_up)
              = '':'' @ ''02'' @ ''8000'' @ ''00'' @ concat [''01'', ''02''] @ (''7B'' @ [NL])"
    by (simp add: new_frame_def)
  have e: "load_record 0 (xval 0 ''8000'') (map (xval 0) [''01'', ''02''])
             = ''S2'' @ ''06'' @ ''00'' @ ''8000'' @ ''0102'' @ ''76'' @ [CR]"
    "writes (tm (new_frame ('':028000000102'' @ ''7B'' @ [NL]) link_up)) = []"
    "\<not> overrun (tm (new_frame ('':028000000102'' @ ''7B'' @ [NL]) link_up))"
    by (simp_all add: run load_record_def)
  have k1: "hex_data_line ''83'' ''8000'' long_data" "length long_data = 131"
    by (simp_all add: hex_data_line_def long_data_def xdigits_replicate_00)
       (simp_all add: xdigits_def isxdigit_def xdigit_val_def)
  have k2: "connected (tm (new_frame ('':83800000'' @ concat long_data @ ''FD'' @ [NL]) link_up))"
    "\<not> overrun (tm (new_frame ('':83800000'' @ concat long_data @ ''FD'' @ [NL]) link_up))"
    by (simp_all add: new_frame_def link_up_def)
  have k3: "fp (new_frame ('':83800000'' @ concat long_data @ ''FD'' @ [NL]) link_up)
              = '':'' @ ''83'' @ ''8000'' @ ''00'' @ concat long_data @ (''FD'' @ [NL])"
    by (simp add: new_frame_def)
  from C4_hex_checksum [OF h1 h2 h3] C4_hex_checksum [OF k1(1) k2(1) k3] h1 h2 e k1 k2
  show ?thesis
    by simp
qed

subsection \<open>Upload engine: S-records\<close>

lemma srec_send_exact:
  assumes "list_all (xdigits 2) bs" and "length bs \<le> 121"
    and "count f = int (length bs)"
    and "fp f = concat bs @ rest"
  shows "fp (srec_send f) = rest \<and> start_address (srec_send f) = start_address f
           \<and> tm (srec_send f) = update_terminal
                (sendString (''S2'' @ fmtX 2 (count f + 4) @ fmtX 2 (drop_bit 16 (address f) AND 0xFF)
                   @ fmtX 2 (drop_bit 8 (address f) AND 0xFF) @ fmtX 2 (address f AND 0xFF)
                   @ concat (map (\<lambda>b. fmtX 2 (xval 0 b)) bs)
                   @ fmtX 2 (0xFF - ((checksum0 f + sum_list (map (xval 0) bs)) AND 0xFF))
                   @ [NL]) (tm f))"
proof -
  define hdr where "hdr = ''S2'' @ fmtX 2 (count f + 4) @ fmtX 2 (drop_bit 16 (address f) AND 0xFF)
                   @ fmtX 2 (drop_bit 8 (address f) AND 0xFF) @ fmtX 2 (address f AND 0xFF)"
  have lc: "length (fmtX 2 (count f + 4)) = 2"
    using assms by (intro fmtX_2_length) simp_all
  then have lh: "length hdr = 10"
    by (simp add: hdr_def)
  have h: "srec_header f = f\<lparr>sbuf := hdr\<rparr>"
    using lh by (simp add: srec_header_def sprintf_s_def sprintf_at_def hdr_def)
  define f' where "f' = f\<lparr>sbuf := hdr\<rparr>"
  have d: "srec_data (length bs) 10 (checksum0 f') f' =
           (10 + 2 * length bs, checksum0 f' + sum_list (map (xval 0) bs),
            f'\<lparr>fp := rest, val := foldl (\<lambda>v b. xval 0 b) (val f') bs,
              sbuf := sbuf f' @ concat (map (\<lambda>b. fmtX 2 (xval 0 b)) bs)\<rparr>)"
    using assms lh by (intro srec_data_bytes) (simp_all add: f'_def)
  define g' where "g' = f'\<lparr>fp := rest, val := foldl (\<lambda>v b. xval 0 b) (val f') bs,
              sbuf := sbuf f' @ concat (map (\<lambda>b. fmtX 2 (xval 0 b)) bs)\<rparr>"
  have c0: "checksum0 f' = checksum0 f" "count f' = count f"
    by (simp_all add: f'_def checksum0_def)
  have s: "srec_send f = send_record (10 + 2 * length bs) (checksum0 f' + sum_list (map (xval 0) bs)) g'"
    using d assms(3) by (simp add: srec_send_def h Let_def f'_def [symmetric] c0 g'_def)
  have lg: "length (sbuf g') = 10 + 2 * length bs"
    using assms(1) lh by (simp add: g'_def f'_def length_data_text)
  have b: "10 + 2 * length bs + 4 \<le> 256"
    using assms(2) by simp
  have p: "fp g' = rest" "start_address g' = start_address f" "tm g' = tm f"
    "sbuf g' = hdr @ concat (map (\<lambda>b. fmtX 2 (xval 0 b)) bs)"
    by (simp_all add: g'_def f'_def)
  have "fp (srec_send f) = rest"
    unfolding s using send_record_exact(1) [OF lg b] p(1) by simp
  moreover have "start_address (srec_send f) = start_address f"
    unfolding s using send_record_exact(2) [OF lg b] p(2) by simp
  moreover have "tm (srec_send f) = update_terminal
                (sendString (hdr @ concat (map (\<lambda>b. fmtX 2 (xval 0 b)) bs)
                   @ fmtX 2 (0xFF - ((checksum0 f + sum_list (map (xval 0) bs)) AND 0xFF))
                   @ [NL]) (tm f))"
    unfolding s using send_record_exact(3) [OF lg b] p(3,4) c0(1) by simp
  ultimately show ?thesis
    unfolding hdr_def by simp
qed

lemma srec_send_long:
  assumes "list_all (xdigits 2) bs" and "121 < length bs"
    and "count f = int (length bs)" and "fp f = concat bs @ rest"
  shows "overrun (tm (srec_send f))"
proof -
  have "fp (srec_header f) = concat bs @ rest"
    using assms(4) by simp
  from srec_data_scan [OF assms(1) this, of 10 "checksum0 (srec_header f)"]
  obtain c' g where "srec_data (length bs) 10 (checksum0 (srec_header f)) (srec_header f)
                       = (10 + 2 * length bs, c', g)"
    by blast
  then have "srec_send f = send_record (10 + 2 * length bs) c' g"
    using assms(3) by (simp add: srec_send_def Let_def)
  moreover have "overrun (tm (send_record (10 + 2 * length bs) c' g))"
    using assms(2) by (intro send_record_long) simp
  ultimately show ?thesis
    by simp
qed

lemma schar_plain [simp]: "schar CHR ''S'' = 83" "schar CHR ''0'' = 48" "schar CHR ''1'' = 49"
  "schar CHR ''2'' = 50"
  by (simp_all add: schar_def)

text \<open>
  The head of an S1 or S2 record: count and address are read, the start address is
  captured, and the data bytes are left to the send stage.
\<close>

lemma srec_step_S2_fields:
  assumes "srec_data_line 3 cnt adr bs" and "fp f = ''S2'' @ cnt @ adr @ rest"
  shows "\<exists>f3. srec_step f = next_record (srec_send f3) \<and> count f3 = int (length bs)
           \<and> address f3 = xval 0 adr \<and> fp f3 = rest \<and> tm f3 = tm f
           \<and> start_address f3 = (if start_address f = - 1 then xval 0 adr else start_address f)"
proof -
  from assms(1) have w: "xdigits 2 cnt" "xdigits 6 adr" "list_all (xdigits 2) bs"
    "xval 0 cnt = int (length bs) + 4" "bs \<noteq> []"
    by (simp_all add: srec_data_line_def)
  define f0 where "f0 = f\<lparr>fp := cnt @ adr @ rest, code := 2\<rparr>"
  define f1 where "f1 = f0\<lparr>fp := adr @ rest, count := xval 0 cnt\<rparr>"
  define f2 where "f2 = f1\<lparr>count := count f1 - 4\<rparr>"
  define f3 where "f3 = capture_start (f2\<lparr>fp := rest, address := xval 0 adr\<rparr>)"
  have s1: "scan_count f0 = (1, f1)"
    using scan_count_xdigits [OF w(1), of f0 "adr @ rest"]
    by (simp add: f0_def f1_def)
  have s2: "scan_address 6 f2 = (1, f2\<lparr>fp := rest, address := xval 0 adr\<rparr>)"
    using scan_address_xdigits [OF w(2), of f2 rest]
    by (simp add: f2_def f1_def)
  have cd: "code f1 = 2" "code f2 = 2" "count f2 = int (length bs)" "count f2 \<noteq> 0"
    using w by (simp_all add: f2_def f1_def f0_def)
  have a: "srec_address f2 = Continue f3"
    using s2 cd by (simp add: srec_address_def EOF_def f3_def)
  have r: "srec_step f = next_record (srec_send f3)"
    using assms(2) s1 cd a
    by (simp add: srec_step_def Let_def EOF_def f0_def [symmetric] f2_def [symmetric])
  have p: "count f3 = int (length bs)" "address f3 = xval 0 adr"
    "fp f3 = rest" "tm f3 = tm f"
    "start_address f3 = (if start_address f = - 1 then xval 0 adr else start_address f)"
    using w(4) by (simp_all add: f3_def capture_start_def f2_def f1_def f0_def)
  from r p show ?thesis
    by blast
qed

lemma srec_step_S1_fields:
  assumes "srec_data_line 2 cnt adr bs" and "fp f = ''S1'' @ cnt @ adr @ rest"
  shows "\<exists>f3. srec_step f = next_record (srec_send f3) \<and> count f3 = int (length bs)
           \<and> address f3 = xval 0 adr \<and> fp f3 = rest \<and> tm f3 = tm f
           \<and> start_address f3 = (if start_address f = - 1 then xval 0 adr else start_address f)"
proof -
  from assms(1) have w: "xdigits 2 cnt" "xdigits 4 adr" "list_all (xdigits 2) bs"
    "xval 0 cnt = int (length bs) + 3" "bs \<noteq> []"
    by (simp_all add: srec_data_line_def)
  define f0 where "f0 = f\<lparr>fp := cnt @ adr @ rest, code := 1\<rparr>"
  define f1 where "f1 = f0\<lparr>fp := adr @ rest, count := xval 0 cnt\<rparr>"
  define f2 where "f2 = f1\<lparr>count := count f1 - 3\<rparr>"
  define f3 where "f3 = capture_start (f2\<lparr>fp := rest, address := xval 0 adr\<rparr>)"
  have s1: "scan_count f0 = (1, f1)"
    using scan_count_xdigits [OF w(1), of f0 "adr @ rest"]
    by (simp add: f0_def f1_def)
  have s2: "scan_address 4 f2 = (1, f2\<lparr>fp := rest, address := xval 0 adr\<rparr>)"
    using scan_address_xdigits [OF w(2), of f2 rest]
    by (simp add: f2_def f1_def)
  have cd: "code f1 = 1" "code f2 = 1" "count f2 = int (length bs)" "count f2 \<noteq> 0"
    using w by (simp_all add: f2_def f1_def f0_def)
  have a: "srec_address f2 = Continue f3"
    using s2 cd by (simp add: srec_address_def EOF_def f3_def)
  have r: "srec_step f = next_record (srec_send f3)"
    using assms(2) s1 cd a
    by (simp add: srec_step_def Let_def EOF_def f0_def [symmetric] f2_def [symmetric])
  have p: "count f3 = int (length bs)" "address f3 = xval 0 adr"
    "fp f3 = rest" "tm f3 = tm f"
    "start_address f3 = (if start_address f = - 1 then xval 0 adr else start_address f)"
    using w(4) by (simp_all add: f3_def capture_start_def f2_def f1_def f0_def)
  from r p show ?thesis
    by blast
qed

text \<open>A data record of type 1 or 2 that fits into the line buffer, and one that does not.\<close>

lemma srec_step_data:
  assumes "srec_data_line 2 cnt adr bs \<and> ty = ''1'' \<or> srec_data_line 3 cnt adr bs \<and> ty = ''2''"
    and "length bs \<le> 121"
    and "fp f = ''S'' @ ty @ cnt @ adr @ concat bs @ rest"
  shows "\<exists>g. srec_step f = next_record g \<and> fp g = rest
           \<and> start_address g = (if start_address f = - 1 then xval 0 adr else start_address f)
           \<and> tm g = update_terminal
                (sendString (''S2'' @ fmtX 2 (int (length bs) + 4)
                   @ fmtX 2 (drop_bit 16 (xval 0 adr) AND 0xFF)
                   @ fmtX 2 (drop_bit 8 (xval 0 adr) AND 0xFF) @ fmtX 2 (xval 0 adr AND 0xFF)
                   @ concat (map (\<lambda>b. fmtX 2 (xval 0 b)) bs)
                   @ fmtX 2 (0xFF - ((0 + (int (length bs) + 4) + drop_bit 8 (xval 0 adr)
                        + (xval 0 adr AND 0xFF) + sum_list (map (xval 0) bs)) AND 0xFF))
                   @ [NL]) (tm f))"
proof -
  from assms(1) have b: "list_all (xdigits 2) bs"
    by (auto simp: srec_data_line_def)
  have "\<exists>f3. srec_step f = next_record (srec_send f3) \<and> count f3 = int (length bs)
           \<and> address f3 = xval 0 adr \<and> fp f3 = concat bs @ rest \<and> tm f3 = tm f
           \<and> start_address f3 = (if start_address f = - 1 then xval 0 adr else start_address f)"
    using assms(1)
  proof
    assume a: "srec_data_line 2 cnt adr bs \<and> ty = ''1''"
    with assms(3) have "fp f = ''S1'' @ cnt @ adr @ (concat bs @ rest)"
      by simp
    with a show ?thesis
      by (intro srec_step_S1_fields) simp_all
  next
    assume a: "srec_data_line 3 cnt adr bs \<and> ty = ''2''"
    with assms(3) have "fp f = ''S2'' @ cnt @ adr @ (concat bs @ rest)"
      by simp
    with a show ?thesis
      by (intro srec_step_S2_fields) simp_all
  qed
  then obtain f3 where r: "srec_step f = next_record (srec_send f3)"
    and p: "count f3 = int (length bs)" "address f3 = xval 0 adr"
      "fp f3 = concat bs @ rest" "tm f3 = tm f"
      "start_address f3 = (if start_address f = - 1 then xval 0 adr else start_address f)"
    by blast
  have c0: "checksum0 f3 = 0 + (int (length bs) + 4) + drop_bit 8 (xval 0 adr) + (xval 0 adr AND 0xFF)"
    by (simp add: checksum0_def p)
  from srec_send_exact [OF b assms(2) p(1) p(3)] r p c0 show ?thesis
    by (intro exI [of _ "srec_send f3"]) simp
qed

lemma srec_step_long:
  assumes "srec_data_line 2 cnt adr bs \<and> ty = ''1'' \<or> srec_data_line 3 cnt adr bs \<and> ty = ''2''"
    and "121 < length bs"
    and "fp f = ''S'' @ ty @ cnt @ adr @ concat bs @ rest"
  shows "overrun (tm (frame_of (srec_step f)))"
proof -
  from assms(1) have b: "list_all (xdigits 2) bs"
    by (auto simp: srec_data_line_def)
  have "\<exists>f3. srec_step f = next_record (srec_send f3) \<and> count f3 = int (length bs)
           \<and> address f3 = xval 0 adr \<and> fp f3 = concat bs @ rest \<and> tm f3 = tm f
           \<and> start_address f3 = (if start_address f = - 1 then xval 0 adr else start_address f)"
    using assms(1)
  proof
    assume a: "srec_data_line 2 cnt adr bs \<and> ty = ''1''"
    with assms(3) have "fp f = ''S1'' @ cnt @ adr @ (concat bs @ rest)"
      by simp
    with a show ?thesis
      by (intro srec_step_S1_fields) simp_all
  next
    assume a: "srec_data_line 3 cnt adr bs \<and> ty = ''2''"
    with assms(3) have "fp f = ''S2'' @ cnt @ adr @ (concat bs @ rest)"
      by simp
    with a show ?thesis
      by (intro srec_step_S2_fields) simp_all
  qed
  then obtain f3 where r: "srec_step f = next_record (srec_send f3)"
    and p: "count f3 = int (length bs)" "fp f3 = concat bs @ rest"
    by blast
  from srec_send_long [OF b assms(2) p] r show ?thesis
    by (simp add: next_record_tm)
qed

lemma start_scan [simp]:
  "start_address (snd (scan_count f)) = start_address f"
  "start_address (snd (scan_address w f)) = start_address f"
  "start_address (snd (scan_value f)) = start_address f"
  by (simp_all add: scan_count_def scan_address_def scan_value_def split: prod.splits)

lemma start_simple [simp]:
  "start_address (file_error f) = start_address f"
  "start_address (sprintf_s i txt f) = start_address f"
  "start_address (srec_header f) = start_address f"
  "start_address (send_record i c f) = start_address f"
  by (simp_all add: file_error_def sprintf_s_def srec_header_def send_record_def Let_def)

lemma start_srec_data:
  "srec_data n i c f = (i', c', f') \<Longrightarrow> start_address f' = start_address f"
proof (induction n i c f rule: srec_data.induct)
  case (1 index checksum f)
  then show ?case by simp
next
  case (2 n index checksum f0)
  obtain ret f where sv: "scan_value f0 = (ret, f)"
    by (cases "scan_value f0")
  then have k: "start_address f = start_address f0"
    using start_scan(3) [of f0] by simp
  show ?case
  proof (cases "ret = - 1 \<or> ret = EOF")
    case True
    with "2.prems" sv k show ?thesis by auto
  next
    case False
    with "2.prems" sv
    have "srec_data n (index + 2) (checksum + val f) (sprintf_s index (fmtX 2 (val f)) f)
            = (i', c', f')"
      by simp
    from "2.IH" [OF sv [symmetric] False this] k show ?thesis by simp
  qed
qed

lemma start_srec_send [simp]: "start_address (srec_send f) = start_address f"
proof -
  obtain i c g
    where d: "srec_data (nat (count (srec_header f))) 10 (checksum0 (srec_header f)) (srec_header f)
                 = (i, c, g)"
    by (cases "srec_data (nat (count (srec_header f))) 10 (checksum0 (srec_header f)) (srec_header f)")
  from start_srec_data [OF d] d show ?thesis
    by (simp add: srec_send_def Let_def)
qed

lemma start_srec_address:
  "start_address f \<noteq> - 1 \<Longrightarrow> start_address (frame_of (srec_address f)) = start_address f"
proof -
  assume n: "start_address f \<noteq> - 1"
  obtain r4 f4 where s4: "scan_address 4 f = (r4, f4)"
    by (cases "scan_address 4 f")
  obtain r6 f6 where s6: "scan_address 6 f = (r6, f6)"
    by (cases "scan_address 6 f")
  have t: "start_address f4 = start_address f" "start_address f6 = start_address f"
    using start_scan(2) [of 4 f] start_scan(2) [of 6 f] s4 s6 by simp_all
  show ?thesis
    using s4 s6 t n by (simp add: srec_address_def frame_of_def capture_start_def)
qed

lemma start_srec_step:
  assumes "start_address f0 \<noteq> - 1"
  shows "start_address (frame_of (srec_step f0)) = start_address f0"
proof (cases "fp f0")
  case Nil
  then show ?thesis by (simp add: srec_step_def frame_of_def)
next
  case c0: (Cons p0 r0)
  show ?thesis
  proof (cases r0)
    case Nil
    with c0 show ?thesis by (simp add: srec_step_def frame_of_def)
  next
    case c1: (Cons p1 r1)
    define f where "f = f0\<lparr>fp := r1, code := schar p1 - 48\<rparr>"
    obtain ret f1 where s1: "scan_count f = (ret, f1)"
      by (cases "scan_count f")
    define f2 where "f2 = (if code f1 = 1 then f1\<lparr>count := count f1 - 3\<rparr>
                           else if code f1 = 2 then f1\<lparr>count := count f1 - 4\<rparr>
                           else f1)"
    have t: "start_address f = start_address f0" by (simp add: f_def)
    have t1: "start_address f1 = start_address f0" using start_scan(1) [of f] s1 t by simp
    have t2: "start_address f2 = start_address f0" using t1 by (simp add: f2_def)
    have a: "start_address (frame_of (case srec_address f2 of
                                 Break f \<Rightarrow> Break f
                               | Continue f \<Rightarrow> next_record (srec_send f))) = start_address f0"
    proof (cases "srec_address f2")
      case (Break g)
      with start_srec_address [of f2] t2 assms show ?thesis by simp
    next
      case (Continue g)
      with start_srec_address [of f2] t2 assms have "start_address g = start_address f0"
        by (simp add: frame_of_def)
      with Continue show ?thesis by (simp add: next_record_tm)
    qed
    have b: "start_address (frame_of (next_record f2)) = start_address f0"
      using t2 by (simp add: next_record_tm)
    show ?thesis
      using c0 c1 s1 t t1 t2 a b
      by (simp add: srec_step_def Let_def f_def [symmetric] f2_def [symmetric] frame_of_def)
  qed
qed

lemma start_srec_loop:
  "start_address f \<noteq> - 1 \<Longrightarrow> start_address (srec_loop f) = start_address f"
proof (induction f rule: srec_loop.induct)
  case (1 f)
  show ?case
  proof (cases "srec_step f")
    case (Break g)
    with start_srec_step [OF "1.prems"] show ?thesis
      by (subst srec_loop.simps) (simp add: frame_of_def)
  next
    case (Continue g)
    with start_srec_step [OF "1.prems"] have g: "start_address g = start_address f"
      by (simp add: frame_of_def)
    moreover from Continue have "srec_loop f = srec_loop g"
      by (subst srec_loop.simps) simp
    ultimately show ?thesis
      using "1.IH" [OF Continue] "1.prems" by simp
  qed
qed

lemma uploadSrec_reports:
  "trace (uploadSrec (Some content) t)
     = trace (sendString (''S804000000FB'' @ [NL])
               (tm (srec_loop (new_frame content
                  (Gui_append ([NL] @ ''>> Uploading Program, ESC to cancel.'' @ [NL]) t)))))
       @ [SetAddress (start_address (srec_loop (new_frame content
                  (Gui_append ([NL] @ ''>> Uploading Program, ESC to cancel.'' @ [NL]) t))))]"
  unfolding uploadSrec_def Let_def option.case
  by (simp add: emit_def sprintf_s_def sprintf_at_def sendString_def)

lemma srec_step_S0:
  assumes "xdigits 2 cnt" and "fp f = ''S0'' @ cnt @ rest"
  shows "srec_step f =
           (if xval 0 cnt = 0 then Break (f\<lparr>code := 0, fp := rest, count := 0\<rparr>)
            else next_record (f\<lparr>code := 0, fp := rest, count := xval 0 cnt\<rparr>))"
proof -
  define f0 where "f0 = f\<lparr>fp := cnt @ rest, code := 0\<rparr>"
  have s1: "scan_count f0 = (1, f0\<lparr>fp := rest, count := xval 0 cnt\<rparr>)"
    using scan_count_xdigits [OF assms(1), of f0 rest] by (simp add: f0_def)
  show ?thesis
    using assms(2) s1
    by (simp add: srec_step_def Let_def EOF_def f0_def [symmetric]) (simp add: f0_def)
qed

subsection \<open>Upload engine: cancellation\<close>









lemma tm_emit [simp]: "cancelled (emit e t) = cancelled t" "esc (emit e t) = esc t"
  by (simp_all add: emit_def)



subsection \<open>Upload engine: header records and the start address\<close>

lemma next_record_explicit:
  assumes "skip_line 256 (fp g) = rest"
  shows "next_record g =
           (if cancelled (tm g) \<or> (esc (tm g) \<noteq> [] \<and> hd (esc (tm g)))
            then Break (g\<lparr>fp := rest, tm := (tm g)\<lparr>cancelled := False, esc := tl (esc (tm g))\<rparr>\<rparr>)
            else Continue (g\<lparr>fp := rest, tm := (tm g)\<lparr>esc := tl (esc (tm g))\<rparr>\<rparr>))"
proof (cases "tm g")
  case (fields c fl b ca e r ov tr)
  then show ?thesis
    using assms by (cases e) (simp_all add: next_record_def Let_def Fl_check_def)
qed

text \<open>
  Claim C8 as stated fails. A header record with the count \<open>03\<close> (which minus 3 would be
  zero) does not end the upload: the S1 record after it is sent.
\<close>

theorem C8_counterexample:
  "writes (uploadSrec (Some (''S0030000FC'' @ [NL] @ ''S1058000AABB16'' @ [NL])) link_up)
     = [''S2060080'' @ ''00AABB'' @ ''14'' @ [CR], ''S804000000FB'' @ [CR]]"
  by (simp add: run cong: let_weak_cong)

text \<open>
  Claim C8, amended. The count of a header record (type 0) is not adjusted, and nothing
  is written for a header. If the count field itself is zero the loop ends there,
  silently, as at the end marker of a HEX file. Otherwise the header is skipped: if its
  line feed is among the 256 characters that follow the count field, the loop goes on
  with the next line, unless the cancel flag is found set at the check that follows,
  which ends the loop and clears the flag; on a longer line exactly 256 characters are
  skipped and the loop resumes inside the line.
\<close>

theorem C8_header_record:
  assumes "xdigits 2 cnt"
  shows "(fp f = ''S0'' @ cnt @ rest \<longrightarrow> writes (tm (frame_of (srec_step f))) = writes (tm f))
       \<and> (xval 0 cnt = 0 \<and> fp f = ''S0'' @ cnt @ rest \<longrightarrow>
            srec_step f = Break (f\<lparr>code := 0, fp := rest, count := 0\<rparr>))
       \<and> (xval 0 cnt \<noteq> 0 \<and> NL \<notin> set tail \<and> length tail < 256
          \<and> fp f = ''S0'' @ cnt @ tail @ NL # rest \<longrightarrow>
            srec_step f =
              (if cancelled (tm f) \<or> (esc (tm f) \<noteq> [] \<and> hd (esc (tm f)))
               then Break (f\<lparr>code := 0, fp := rest, count := xval 0 cnt,
                             tm := (tm f)\<lparr>cancelled := False, esc := tl (esc (tm f))\<rparr>\<rparr>)
               else Continue (f\<lparr>code := 0, fp := rest, count := xval 0 cnt,
                                tm := (tm f)\<lparr>esc := tl (esc (tm f))\<rparr>\<rparr>)))
       \<and> (xval 0 cnt \<noteq> 0 \<and> NL \<notin> set tail \<and> length tail = 256
          \<and> fp f = ''S0'' @ cnt @ tail @ rest \<longrightarrow>
            srec_step f =
              (if cancelled (tm f) \<or> (esc (tm f) \<noteq> [] \<and> hd (esc (tm f)))
               then Break (f\<lparr>code := 0, fp := rest, count := xval 0 cnt,
                             tm := (tm f)\<lparr>cancelled := False, esc := tl (esc (tm f))\<rparr>\<rparr>)
               else Continue (f\<lparr>code := 0, fp := rest, count := xval 0 cnt,
                                tm := (tm f)\<lparr>esc := tl (esc (tm f))\<rparr>\<rparr>)))"
proof -
  have 1: "writes (tm (frame_of (srec_step f))) = writes (tm f)" if "fp f = ''S0'' @ cnt @ rest"
  proof -
    have "writes (tm (frame_of (next_record (f\<lparr>code := 0, fp := rest, count := xval 0 cnt\<rparr>))))
            = writes (tm f)"
      by (simp add: next_record_tm)
    with srec_step_S0 [OF assms that] show ?thesis
      by (simp add: frame_of_def)
  qed
  have 2: "srec_step f = Break (f\<lparr>code := 0, fp := rest, count := 0\<rparr>)"
    if "xval 0 cnt = 0" "fp f = ''S0'' @ cnt @ rest"
    using srec_step_S0 [OF assms that(2)] that(1) by simp
  have 3: "srec_step f =
              (if cancelled (tm f) \<or> (esc (tm f) \<noteq> [] \<and> hd (esc (tm f)))
               then Break (f\<lparr>code := 0, fp := rest, count := xval 0 cnt,
                             tm := (tm f)\<lparr>cancelled := False, esc := tl (esc (tm f))\<rparr>\<rparr>)
               else Continue (f\<lparr>code := 0, fp := rest, count := xval 0 cnt,
                                tm := (tm f)\<lparr>esc := tl (esc (tm f))\<rparr>\<rparr>))"
    if n: "xval 0 cnt \<noteq> 0" and k: "skip_line 256 tail' = rest" and l: "fp f = ''S0'' @ cnt @ tail'"
    for tail'
  proof -
    define g where "g = f\<lparr>code := 0, fp := tail', count := xval 0 cnt\<rparr>"
    have "skip_line 256 (fp g) = rest"
      using k by (simp add: g_def)
    from next_record_explicit [OF this] srec_step_S0 [OF assms l] n show ?thesis
      by (simp add: g_def)
  qed
  have 4: "skip_line 256 (tail @ NL # rest) = rest" if "NL \<notin> set tail" "length tail < 256"
    using that by (rule skip_line_junk)
  have 5: "skip_line 256 (tail @ rest) = rest" if "NL \<notin> set tail" "length tail = 256"
    using that by (rule skip_line_long)
  from 1 2 3 [OF _ 4] 3 [OF _ 5] show ?thesis
    by blast
qed

text \<open>
  Claim C8, amended, on a header with the count \<open>03\<close>: the loop continues with the
  next line.
\<close>

theorem C8_header_record_witness:
  "xdigits 2 ''03'' \<and> xval 0 ''03'' \<noteq> 0 \<and> NL \<notin> set ''0000FC'' \<and> length ''0000FC'' < 256
   \<and> fp (new_frame (''S0030000FC'' @ [NL] @ ''S1058000AABB16'' @ [NL]) link_up)
       = ''S0'' @ ''03'' @ ''0000FC'' @ NL # (''S1058000AABB16'' @ [NL])
   \<and> srec_step (new_frame (''S0030000FC'' @ [NL] @ ''S1058000AABB16'' @ [NL]) link_up)
       = Continue ((new_frame (''S1058000AABB16'' @ [NL]) link_up)\<lparr>count := 3\<rparr>)"
proof -
  have h: "xdigits 2 ''03''" "xval 0 ''03'' \<noteq> 0" "NL \<notin> set ''0000FC''" "length ''0000FC'' < 256"
    "fp (new_frame (''S0030000FC'' @ [NL] @ ''S1058000AABB16'' @ [NL]) link_up)
       = ''S0'' @ ''03'' @ ''0000FC'' @ NL # (''S1058000AABB16'' @ [NL])"
    by (simp_all add: xdigits_def isxdigit_def xdigit_val_def new_frame_def NL_def)
  have e: "xval 0 ''03'' = 3"
    "\<not> (cancelled (tm (new_frame (''S0030000FC'' @ [NL] @ ''S1058000AABB16'' @ [NL]) link_up))
        \<or> (esc (tm (new_frame (''S0030000FC'' @ [NL] @ ''S1058000AABB16'' @ [NL]) link_up)) \<noteq> []
           \<and> hd (esc (tm (new_frame (''S0030000FC'' @ [NL] @ ''S1058000AABB16'' @ [NL]) link_up)))))"
    "(new_frame (''S0030000FC'' @ [NL] @ ''S1058000AABB16'' @ [NL]) link_up)
        \<lparr>code := 0, fp := ''S1058000AABB16'' @ [NL], count := 3,
          tm := (tm (new_frame (''S0030000FC'' @ [NL] @ ''S1058000AABB16'' @ [NL]) link_up))
                  \<lparr>esc := tl (esc (tm (new_frame (''S0030000FC'' @ [NL] @ ''S1058000AABB16'' @ [NL])
                                           link_up)))\<rparr>\<rparr>
       = (new_frame (''S1058000AABB16'' @ [NL]) link_up)\<lparr>count := 3\<rparr>"
    by (simp_all add: xdigit_val_def new_frame_def link_up_def)
  from C8_header_record [OF h(1),
      where f = "new_frame (''S0030000FC'' @ [NL] @ ''S1058000AABB16'' @ [NL]) link_up"
      and tail = "''0000FC''" and rest = "''S1058000AABB16'' @ [NL]"] h(2,3,4,5)
  have "srec_step (new_frame (''S0030000FC'' @ [NL] @ ''S1058000AABB16'' @ [NL]) link_up)
       = Continue ((new_frame (''S0030000FC'' @ [NL] @ ''S1058000AABB16'' @ [NL]) link_up)
        \<lparr>code := 0, fp := ''S1058000AABB16'' @ [NL], count := xval 0 ''03'',
          tm := (tm (new_frame (''S0030000FC'' @ [NL] @ ''S1058000AABB16'' @ [NL]) link_up))
                  \<lparr>esc := tl (esc (tm (new_frame (''S0030000FC'' @ [NL] @ ''S1058000AABB16'' @ [NL])
                                           link_up)))\<rparr>\<rparr>)"
    using e(2) by (simp only: simp_thms if_False)
  with h e(1,3) show ?thesis
    by (simp only: simp_thms)
qed

lemma srec_step_header:
  assumes "srec_wf h" and "header h" and "fp f = srec_line h @ rest"
    and "\<not> cancelled (tm f)" and "\<not> (esc (tm f) \<noteq> [] \<and> hd (esc (tm f)))"
  shows "\<exists>g. srec_step f = Continue g \<and> fp g = rest \<and> start_address g = start_address f
           \<and> \<not> cancelled (tm g) \<and> esc (tm g) = tl (esc (tm f))"
proof -
  from assms(1,2) have w: "xdigits 2 (l_count h)" "xval 0 (l_count h) \<noteq> 0"
    "l_address h = []" "l_data h = []" "NL \<notin> set (l_tail h)" "length (l_tail h) < 256"
    and t: "l_type h = ''0''"
    by (simp_all add: srec_wf_def header_def)
  define g where "g = f\<lparr>code := 0, fp := l_tail h @ NL # rest, count := xval 0 (l_count h)\<rparr>"
  from assms(3) t w have "fp f = ''S0'' @ l_count h @ (l_tail h @ NL # rest)"
    by (simp add: srec_line_def)
  from srec_step_S0 [OF w(1) this] w(2) have s: "srec_step f = next_record g"
    by (simp add: g_def)
  have p: "fp g = l_tail h @ NL # rest" "tm g = tm f" "start_address g = start_address f"
    by (simp_all add: g_def)
  from next_record_line [OF p(1) w(5) w(6)] s p(2,3) assms(4,5) show ?thesis
    by auto
qed

lemma srec_loop_headers:
  assumes "list_all srec_wf hs" and "list_all header hs"
    and "hs = [] \<or> \<not> cancelled (tm f)"
    and "True \<notin> set (take (length hs) (esc (tm f)))"
    and "fp f = concat (map srec_line hs) @ rest"
  shows "\<exists>g. srec_loop f = srec_loop g \<and> fp g = rest \<and> start_address g = start_address f"
  using assms
proof (induction hs arbitrary: f)
  case Nil
  then show ?case by auto
next
  case (Cons h hs)
  then have w: "srec_wf h" "header h" "list_all srec_wf hs" "list_all header hs"
    and l: "fp f = srec_line h @ (concat (map srec_line hs) @ rest)"
    and c: "\<not> cancelled (tm f)"
    by simp_all
  from Cons.prems(4) have e: "\<not> (esc (tm f) \<noteq> [] \<and> hd (esc (tm f)))"
    "True \<notin> set (take (length hs) (tl (esc (tm f))))"
    by (cases "esc (tm f)"; simp)+
  from srec_step_header [OF w(1) w(2) l c e(1)]
  obtain g where g: "srec_step f = Continue g" "fp g = concat (map srec_line hs) @ rest"
    "start_address g = start_address f" "\<not> cancelled (tm g)"
    "esc (tm g) = tl (esc (tm f))"
    by auto
  from g(4) have c': "hs = [] \<or> \<not> cancelled (tm g)"
    by simp
  from e(2) g(5) have e': "True \<notin> set (take (length hs) (esc (tm g)))"
    by simp
  from Cons.IH [OF w(3) w(4) c' e' g(2)]
  obtain g' where "srec_loop g = srec_loop g'" "fp g' = rest" "start_address g' = start_address g"
    by auto
  moreover from g(1) have "srec_loop f = srec_loop g"
    by (subst srec_loop.simps) simp
  ultimately show ?case
    using g(3) by auto
qed

text \<open>
  Claim C5 holds for a type-2 record of at most 121 data bytes after headers whose lines
  end within 256 characters, and fails on the code beyond. For a type-2 record (24-bit
  address) of at most 121 data bytes, the load record written has bits 16 to 23 of the
  address as its high address byte, and its checksum is that of \<open>load_record\<close>, which adds
  the two bytes of the low 16 bits of the address only: the bank byte adds a multiple of
  256 and drops out of the checksum. A type-2 record of more than 121 data bytes (it may
  have 251) overruns the line buffer. If a type-2 record is the first record of the file
  after header records whose line feeds come within 256 characters of their count fields
  (with no cancellation while the headers are read, and within the line buffer), its
  address is the start address that the upload reports; for the address \<open>0x018000\<close> that
  is \<open>0x018000\<close>. After a header with a longer line the loop resumes inside that line:
  in \<open>long_header_file\<close> it stops there, nothing is sent, and the upload reports \<open>-1\<close>
  though the first record with an address is the type-2 record at \<open>0x018000\<close>.
\<close>

theorem C5_srec_type2:
  assumes "srec_data_line 3 cnt adr bs"
  shows "(connected (tm f) \<and> length bs \<le> 121 \<and> fp f = ''S2'' @ cnt @ adr @ concat bs @ rest \<longrightarrow>
            writes (tm (frame_of (srec_step f)))
              = writes (tm f) @ [load_record (drop_bit 16 (xval 0 adr) AND 0xFF) (xval 0 adr)
                                   (map (xval 0) bs)]
            \<and> overrun (tm (frame_of (srec_step f))) = overrun (tm f))
       \<and> (121 < length bs \<and> fp f = ''S2'' @ cnt @ adr @ concat bs @ rest \<longrightarrow>
            overrun (tm (frame_of (srec_step f))))
       \<and> (list_all srec_wf hs \<and> list_all header hs \<and> (hs = [] \<or> \<not> cancelled t)
          \<and> True \<notin> set (take (length hs) (esc t))
          \<and> \<not> overrun (uploadSrec
                 (Some (concat (map srec_line hs) @ ''S2'' @ cnt @ adr @ concat bs @ rest)) t) \<longrightarrow>
            last (trace (uploadSrec
                   (Some (concat (map srec_line hs) @ ''S2'' @ cnt @ adr @ concat bs @ rest)) t))
              = SetAddress (xval 0 adr))
       \<and> trace (uploadSrec (Some long_header_file) link_up)
           = [Append ([NL] @ ''>> Uploading Program, ESC to cancel.'' @ [NL]),
              Write (''S804000000FB'' @ [CR]), SetAddress (- 1)]"
proof -
  have d: "srec_data_line 2 cnt adr bs \<and> ''2'' = ''1'' \<or> srec_data_line 3 cnt adr bs \<and> ''2'' = ''2''"
    using assms by simp
  have 1: "writes (tm (frame_of (srec_step f)))
              = writes (tm f) @ [load_record (drop_bit 16 (xval 0 adr) AND 0xFF) (xval 0 adr)
                                   (map (xval 0) bs)]
           \<and> overrun (tm (frame_of (srec_step f))) = overrun (tm f)"
    if c: "connected (tm f)" and n: "length bs \<le> 121"
      and l: "fp f = ''S2'' @ cnt @ adr @ concat bs @ rest"
  proof -
    from l have "fp f = ''S'' @ ''2'' @ cnt @ adr @ concat bs @ rest"
      by simp
    from srec_step_data [OF d n this] obtain g where "srec_step f = next_record g"
      and "tm g = update_terminal
                (sendString (''S2'' @ fmtX 2 (int (length bs) + 4)
                   @ fmtX 2 (drop_bit 16 (xval 0 adr) AND 0xFF)
                   @ fmtX 2 (drop_bit 8 (xval 0 adr) AND 0xFF) @ fmtX 2 (xval 0 adr AND 0xFF)
                   @ concat (map (\<lambda>b. fmtX 2 (xval 0 b)) bs)
                   @ fmtX 2 (0xFF - ((0 + (int (length bs) + 4) + drop_bit 8 (xval 0 adr)
                        + (xval 0 adr AND 0xFF) + sum_list (map (xval 0) bs)) AND 0xFF))
                   @ [NL]) (tm f))"
      by auto
    then show ?thesis
      using c wire_load_record [of bs "drop_bit 16 (xval 0 adr) AND 0xFF" "xval 0 adr"]
      by (simp add: next_record_tm writes_sendString)
  qed
  have 2: "overrun (tm (frame_of (srec_step f)))"
    if n: "121 < length bs" and l: "fp f = ''S2'' @ cnt @ adr @ concat bs @ rest"
  proof -
    from l have "fp f = ''S'' @ ''2'' @ cnt @ adr @ concat bs @ rest"
      by simp
    from srec_step_long [OF d n this] show ?thesis .
  qed
  have 3: "last (trace (uploadSrec
                   (Some (concat (map srec_line hs) @ ''S2'' @ cnt @ adr @ concat bs @ rest)) t))
              = SetAddress (xval 0 adr)"
    if w: "list_all srec_wf hs" "list_all header hs" and nc: "hs = [] \<or> \<not> cancelled t"
      and e: "True \<notin> set (take (length hs) (esc t))"
  proof -
    define f0 where "f0 = new_frame (concat (map srec_line hs) @ ''S2'' @ cnt @ adr @ concat bs @ rest)
                  (Gui_append ([NL] @ ''>> Uploading Program, ESC to cancel.'' @ [NL]) t)"
    have a: "0 \<le> xval 0 adr"
      using assms xdigits_6_range [of adr] by (simp add: srec_data_line_def)
    have p: "fp f0 = concat (map srec_line hs) @ (''S2'' @ cnt @ adr @ concat bs @ rest)"
      "start_address f0 = - 1" "hs = [] \<or> \<not> cancelled (tm f0)"
      "True \<notin> set (take (length hs) (esc (tm f0)))"
      using nc e by (simp_all add: f0_def new_frame_def Gui_append_def)
    from srec_loop_headers [OF w p(3) p(4) p(1)] p(2)
    obtain f1 where f1: "srec_loop f0 = srec_loop f1"
      "fp f1 = ''S2'' @ cnt @ adr @ (concat bs @ rest)" "start_address f1 = - 1"
      by auto
    with srec_step_S2_fields [OF assms f1(2)]
    obtain f3 where g: "srec_step f1 = next_record (srec_send f3)"
      "start_address f3 = xval 0 adr"
      by auto
    have n: "start_address (frame_of (next_record (srec_send f3))) = xval 0 adr"
      using g(2) by (simp add: next_record_tm)
    have "start_address (srec_loop f1) = xval 0 adr"
    proof (cases "next_record (srec_send f3)")
      case (Break g')
      with g n show ?thesis
        by (subst srec_loop.simps) (simp add: frame_of_def)
    next
      case (Continue g')
      with n have s: "start_address g' = xval 0 adr"
        by (simp add: frame_of_def)
      from Continue g have "srec_loop f1 = srec_loop g'"
        by (subst srec_loop.simps) simp
      with start_srec_loop [of g'] s a show ?thesis by simp
    qed
    with f1(1) show ?thesis
      unfolding uploadSrec_reports f0_def [symmetric] by simp
  qed
  have 4: "trace (uploadSrec (Some long_header_file) link_up)
           = [Append ([NL] @ ''>> Uploading Program, ESC to cancel.'' @ [NL]),
              Write (''S804000000FB'' @ [CR]), SetAddress (- 1)]"
    by (simp add: run long_header_file_def cong: let_weak_cong)
  from 1 2 3 4 show ?thesis by blast
qed

text \<open>
  Claim C5 on a file with a header and a type-2 record at \<open>0x018000\<close>: the load record
  has the same checksum \<open>76\<close> as the record at \<open>0x8000\<close> of claim C4, and the start
  address reported is \<open>0x018000\<close>. And on a type-2 record of 131 data bytes (count \<open>87\<close>):
  the line buffer is overrun.
\<close>

theorem C5_srec_type2_witness:
  "srec_data_line 3 ''06'' ''018000'' [''01'', ''02'']
   \<and> connected (tm (new_frame (''S206018000010275'' @ [NL]) link_up))
   \<and> writes (tm (frame_of (srec_step (new_frame (''S206018000010275'' @ [NL]) link_up))))
       = [''S2'' @ ''06'' @ ''01'' @ ''8000'' @ ''0102'' @ ''76'' @ [CR]]
   \<and> list_all srec_wf [header_line] \<and> list_all header [header_line]
   \<and> \<not> overrun (uploadSrec (Some (''S0030000FC'' @ [NL] @ ''S206018000010275'' @ [NL])) link_up)
   \<and> last (trace (uploadSrec (Some (''S0030000FC'' @ [NL] @ ''S206018000010275'' @ [NL])) link_up))
       = SetAddress 0x018000
   \<and> srec_data_line 3 ''87'' ''018000'' long_data \<and> length long_data = 131
   \<and> \<not> overrun (tm (new_frame (''S287018000'' @ concat long_data @ ''F7'' @ [NL]) link_up))
   \<and> overrun (tm (frame_of (srec_step
        (new_frame (''S287018000'' @ concat long_data @ ''F7'' @ [NL]) link_up))))"
proof -
  have h: "srec_data_line 3 ''06'' ''018000'' [''01'', ''02'']"
    by (simp add: srec_data_line_def xdigits_def isxdigit_def xdigit_val_def)
  have a: "connected (tm (new_frame (''S206018000010275'' @ [NL]) link_up))"
    "length [''01'', ''02''] \<le> 121"
    "fp (new_frame (''S206018000010275'' @ [NL]) link_up)
             = ''S2'' @ ''06'' @ ''018000'' @ concat [''01'', ''02''] @ (''75'' @ [NL])"
    by (simp_all add: new_frame_def link_up_def)
  have b: "list_all srec_wf [header_line]" "list_all header [header_line]"
    "[header_line] = [] \<or> \<not> cancelled link_up"
    "True \<notin> set (take (length [header_line]) (esc link_up))"
    by (simp_all add: header_line_def header_def srec_wf_def xdigits_def isxdigit_def
          xdigit_val_def link_up_def NL_def)
  have e: "load_record (drop_bit 16 (xval 0 ''018000'') AND 0xFF) (xval 0 ''018000'')
             (map (xval 0) [''01'', ''02''])
           = ''S2'' @ ''06'' @ ''01'' @ ''8000'' @ ''0102'' @ ''76'' @ [CR]"
    "writes (tm (new_frame (''S206018000010275'' @ [NL]) link_up)) = []"
    "xval 0 ''018000'' = 0x018000"
    "concat (map srec_line [header_line]) @ ''S2'' @ ''06'' @ ''018000''
        @ concat [''01'', ''02''] @ (''75'' @ [NL])
       = ''S0030000FC'' @ [NL] @ ''S206018000010275'' @ [NL]"
    by (simp_all add: run load_record_def header_line_def srec_line_def)
  have o: "\<not> overrun (uploadSrec (Some (''S0030000FC'' @ [NL] @ ''S206018000010275'' @ [NL])) link_up)"
    by (simp add: run cong: let_weak_cong)
  have k: "srec_data_line 3 ''87'' ''018000'' long_data" "length long_data = 131"
    "121 < length long_data"
    by (simp_all add: srec_data_line_def long_data_def xdigits_replicate_00)
       (simp_all add: xdigits_def isxdigit_def xdigit_val_def)
  have k2: "\<not> overrun (tm (new_frame (''S287018000'' @ concat long_data @ ''F7'' @ [NL]) link_up))"
    "fp (new_frame (''S287018000'' @ concat long_data @ ''F7'' @ [NL]) link_up)
       = ''S2'' @ ''87'' @ ''018000'' @ concat long_data @ (''F7'' @ [NL])"
    by (simp_all add: new_frame_def link_up_def)
  from C5_srec_type2 [OF h, where f = "new_frame (''S206018000010275'' @ [NL]) link_up"
      and rest = "''75'' @ [NL]"] a e(1,2)
  have 1: "writes (tm (frame_of (srec_step (new_frame (''S206018000010275'' @ [NL]) link_up))))
       = [''S2'' @ ''06'' @ ''01'' @ ''8000'' @ ''0102'' @ ''76'' @ [CR]]"
    by simp
  from C5_srec_type2 [OF h, where hs = "[header_line]" and t = link_up and rest = "''75'' @ [NL]"]
    b o e(3,4)
  have 2: "last (trace (uploadSrec (Some (''S0030000FC'' @ [NL] @ ''S206018000010275'' @ [NL])) link_up))
       = SetAddress 0x018000"
    by simp
  from C5_srec_type2 [OF k(1),
      where f = "new_frame (''S287018000'' @ concat long_data @ ''F7'' @ [NL]) link_up"
      and rest = "''F7'' @ [NL]"] k(3) k2(2)
  have 3: "overrun (tm (frame_of (srec_step
        (new_frame (''S287018000'' @ concat long_data @ ''F7'' @ [NL]) link_up))))"
    by blast
  from h a(1) b(1,2) o k(1,2) k2(1) 1 2 3 show ?thesis
    by blast
qed

end
